theory Spec2Isabelle
  imports Main "HOL-Library.Char_ord" "HOL-Library.List_Lexorder" "HOL-Library.Word"
begin

section \<open>JavaScript values used by \<open>checksum.js\<close>\<close>

text \<open>
  The model of \<open>plugins/wordpress-tools/scripts/lib/checksum.js\<close>. What the file takes
  from the language and from its libraries is written out first: strings, objects and
  \<open>JSON.stringify\<close>, then the file system; the functions of the file follow, by name.

  A JavaScript string is a sequence of code units; the model keeps the code units below
  256 (type \<open>char\<close>). The default \<open>Array.prototype.sort\<close> compares strings code unit
  by code unit, a proper prefix first: that is the lexicographic order on \<open>char list\<close>.
\<close>

type_synonym byte = "8 word"

text \<open>Decimal text of a natural number (\<open>String(i)\<close> for an array position \<open>i\<close>).\<close>

definition digit_char :: "nat \<Rightarrow> char" where
  "digit_char d = ''0123456789'' ! d"

definition is_digit :: "char \<Rightarrow> bool" where
  "is_digit c = (48 \<le> (of_char c :: nat) \<and> (of_char c :: nat) \<le> 57)"

definition digit_val :: "char \<Rightarrow> nat" where
  "digit_val c = of_char c - 48"

fun dec :: "nat \<Rightarrow> string" where
  "dec n = (if n < 10 then [digit_char n] else dec (n div 10) @ [digit_char (n mod 10)])"

declare dec.simps [simp del]

definition index_value :: "string \<Rightarrow> nat" where
  "index_value k = foldl (\<lambda>a c. 10 * a + digit_val c) 0 k"

text \<open>
  An array index (ECMAScript 6.1.7): a property key that is the canonical decimal text of
  an integer between 0 and \<open>2^32 - 2\<close>. Own property keys of an ordinary object are
  enumerated with the array indices first, in ascending numeric order, and the other
  string keys after them, in the order they were created (OrdinaryOwnPropertyKeys).
\<close>

definition is_array_index :: "string \<Rightarrow> bool" where
  "is_array_index k =
     (k \<noteq> [] \<and> list_all is_digit k \<and> index_value k \<le> 4294967294 \<and> dec (index_value k) = k)"

text \<open>
  A value as \<open>JSON.parse\<close> returns it. The numbers are a type parameter: the code never
  looks inside one, and \<open>JSON.stringify\<close> prints it with a function given as argument.
  An object is the list of its own properties in enumeration order.
\<close>

datatype 'n json =
    JNull
  | JBool bool
  | JNum 'n
  | JStr string
  | JArr "'n json list"
  | JObj "(string \<times> 'n json) list"

type_synonym 'v props = "(string \<times> 'v) list"

text \<open>
  \<open>target[key] = value\<close> on an object that was created by \<open>{}\<close>, as every object is
  that \<open>checksum.js\<close> writes to. An existing own property keeps its place; a new array
  index goes among the array indices, in numeric order; any other new key goes to the
  end. The key \<open>__proto__\<close> is the accessor property of \<open>Object.prototype\<close>: the
  assignment calls its setter, which replaces the prototype when the value is an object
  or \<open>null\<close> and does nothing otherwise, and in both cases creates no own property.
  (\<open>JSON.parse\<close> and \<open>{ ...obj }\<close> define properties instead of assigning them, so their
  results can own a property of that name.) A prototype that is replaced is an object
  built from JSON data: it has writable data properties only, so later assignments still
  create own properties, and \<open>JSON.stringify\<close> reads own properties only.
\<close>

fun insert_index :: "string \<Rightarrow> 'v \<Rightarrow> 'v props \<Rightarrow> 'v props" where
  "insert_index k v [] = [(k, v)]"
| "insert_index k v ((k', v') # ps) =
     (if is_array_index k' \<and> index_value k' < index_value k
      then (k', v') # insert_index k v ps
      else (k, v) # (k', v') # ps)"

definition js_set :: "string \<Rightarrow> 'v \<Rightarrow> 'v props \<Rightarrow> 'v props" where
  "js_set k v ps =
     (if k = ''__proto__'' then ps
      else if k \<in> fst ` set ps then map (\<lambda>(k', v'). if k' = k then (k', v) else (k', v')) ps
      else if is_array_index k then insert_index k v ps
      else ps @ [(k, v)])"

text \<open>\<open>delete target[key]\<close>.\<close>

definition js_delete :: "string \<Rightarrow> 'v props \<Rightarrow> 'v props" where
  "js_delete key ps = filter (\<lambda>(k, v). k \<noteq> key) ps"

text \<open>
  \<open>{ ...obj }\<close>: the own enumerable properties of \<open>obj\<close>, in enumeration order. An array
  gives one property for each position, a string one for each code unit, and
  \<open>null\<close>, a boolean or a number none.
\<close>

fun spread :: "'n json \<Rightarrow> 'n json props" where
  "spread (JObj ps) = ps"
| "spread (JArr xs) = map (\<lambda>i. (dec i, xs ! i)) [0..<length xs]"
| "spread (JStr s) = map (\<lambda>i. (dec i, JStr [s ! i])) [0..<length s]"
| "spread v = []"

subsection \<open>\<open>JSON.stringify\<close>\<close>

text \<open>
  Without indentation, as the file calls it. An object prints its own properties in
  enumeration order; \<open>num\<close> is the text of a number.
\<close>

definition hex_digit :: "nat \<Rightarrow> char" where
  "hex_digit d = ''0123456789abcdef'' ! d"

text \<open>QuoteJSONString, on code units below 256.\<close>

definition quote_char :: "char \<Rightarrow> string" where
  "quote_char c =
     (let n = (of_char c :: nat) in
      if n = 8 then [CHR 0x5C, CHR ''b'']
      else if n = 9 then [CHR 0x5C, CHR ''t'']
      else if n = 10 then [CHR 0x5C, CHR ''n'']
      else if n = 12 then [CHR 0x5C, CHR ''f'']
      else if n = 13 then [CHR 0x5C, CHR ''r'']
      else if n = 34 then [CHR 0x5C, CHR 0x22]
      else if n = 92 then [CHR 0x5C, CHR 0x5C]
      else if n < 32 then [CHR 0x5C, CHR ''u'', CHR ''0'', CHR ''0'', hex_digit (n div 16), hex_digit (n mod 16)]
      else [c])"

definition quote :: "string \<Rightarrow> string" where
  "quote s = [CHR 0x22] @ concat (map quote_char s) @ [CHR 0x22]"

fun join :: "string \<Rightarrow> string list \<Rightarrow> string" where
  "join sep [] = []"
| "join sep [x] = x"
| "join sep (x # y # ys) = x @ sep @ join sep (y # ys)"

definition stringify_array :: "string list \<Rightarrow> string" where
  "stringify_array items = ''['' @ join '','' items @ '']''"

definition stringify_object :: "(string \<times> string) list \<Rightarrow> string" where
  "stringify_object members = ''{'' @ join '','' (map (\<lambda>(k, s). quote k @ '':'' @ s) members) @ ''}''"

fun JSON_stringify :: "('n \<Rightarrow> string) \<Rightarrow> 'n json \<Rightarrow> string" where
  "JSON_stringify num JNull = ''null''"
| "JSON_stringify num (JBool b) = (if b then ''true'' else ''false'')"
| "JSON_stringify num (JNum n) = num n"
| "JSON_stringify num (JStr s) = quote s"
| "JSON_stringify num (JArr xs) = stringify_array (map (JSON_stringify num) xs)"
| "JSON_stringify num (JObj ps) =
     stringify_object (map (\<lambda>(k, v). (k, JSON_stringify num v)) ps)"

section \<open>The file system seen by \<open>checksum.js\<close>\<close>

text \<open>
  A snapshot of the file tree. \<open>fs.pathExists\<close>, \<open>fs.readFile\<close>, \<open>fs.readdir\<close> and
  \<open>fs.stat\<close> read it; a rejected promise is an error value. A directory lists its entries
  in the order \<open>fs.readdir\<close> returns them.
\<close>

datatype node = File "byte list" | Dir "(string \<times> node) list"

type_synonym path = "string list"

datatype fs_error = ENOENT | EISDIR | ENOTDIR | ParseError

fun resolve :: "node \<Rightarrow> path \<Rightarrow> node option" where
  "resolve n [] = Some n"
| "resolve (File content) (x # p) = None"
| "resolve (Dir entries) (x # p) =
     (case map_of entries x of None \<Rightarrow> None | Some n \<Rightarrow> resolve n p)"

definition pathExists :: "node \<Rightarrow> path \<Rightarrow> bool" where
  "pathExists fs p = (resolve fs p \<noteq> None)"

definition readFile :: "node \<Rightarrow> path \<Rightarrow> fs_error + byte list" where
  "readFile fs p =
     (case resolve fs p of
        None \<Rightarrow> Inl ENOENT
      | Some (Dir entries) \<Rightarrow> Inl EISDIR
      | Some (File content) \<Rightarrow> Inr content)"

definition readdir :: "node \<Rightarrow> path \<Rightarrow> fs_error + string list" where
  "readdir fs p =
     (case resolve fs p of
        None \<Rightarrow> Inl ENOENT
      | Some (File content) \<Rightarrow> Inl ENOTDIR
      | Some (Dir entries) \<Rightarrow> Inr (map fst entries))"

text \<open>\<open>(await fs.stat(p)).isFile()\<close>.\<close>

definition stat_isFile :: "node \<Rightarrow> path \<Rightarrow> fs_error + bool" where
  "stat_isFile fs p =
     (case resolve fs p of
        None \<Rightarrow> Inl ENOENT
      | Some (File content) \<Rightarrow> Inr True
      | Some (Dir entries) \<Rightarrow> Inr False)"

text \<open>
  \<open>fs.readJson\<close>: the file's bytes, parsed. The parser is the library's and is an
  argument; \<open>None\<close> is its SyntaxError.
\<close>

definition readJson :: "(byte list \<Rightarrow> 'n json option) \<Rightarrow> node \<Rightarrow> path \<Rightarrow> fs_error + 'n json" where
  "readJson parse fs p =
     (case readFile fs p of
        Inl e \<Rightarrow> Inl e
      | Inr content \<Rightarrow> (case parse content of None \<Rightarrow> Inl ParseError | Some v \<Rightarrow> Inr v))"

section \<open>\<open>checksum.js\<close>\<close>

text \<open>
  \<open>hashString\<close> (lines 10-12) and \<open>hashFile\<close> (lines 19-22).
  \<open>createHash('sha256').update(bytes).digest('hex')\<close> is the library's: every function
  below takes it as the argument \<open>H\<close>. \<open>update(content, 'utf8')\<close> hashes the UTF-8 bytes
  of the string.
\<close>

type_synonym sha256 = "byte list \<Rightarrow> string"

definition utf8_char :: "char \<Rightarrow> byte list" where
  "utf8_char c =
     (let n = (of_char c :: nat) in
      if n < 128 then [of_nat n] else [of_nat (192 + n div 64), of_nat (128 + n mod 64)])"

definition utf8_encode :: "string \<Rightarrow> byte list" where
  "utf8_encode s = concat (map utf8_char s)"

definition hashString :: "sha256 \<Rightarrow> string \<Rightarrow> string" where
  "hashString H content = H (utf8_encode content)"

definition hashFile :: "sha256 \<Rightarrow> node \<Rightarrow> path \<Rightarrow> fs_error + string" where
  "hashFile H fs filePath =
     (case readFile fs filePath of Inl e \<Rightarrow> Inl e | Inr content \<Rightarrow> Inr (H content))"

text \<open>
  \<open>sortObjectKeys\<close> (lines 50-64). \<open>obj[key]\<close>, for a key that \<open>Object.keys(obj)\<close> lists,
  is the value of the own property. The lemma is for the termination of the recursion.
\<close>

lemma size_own_property [termination_simp]:
  "(key, v) \<in> set ps \<Longrightarrow>
   size (the (map_of ps key)) < Suc (size_list (\<lambda>x. Suc (size (snd x))) ps)"
proof (induction ps)
  case Nil
  then show ?case by simp
next
  case (Cons p ps)
  show ?case
  proof (cases "fst p = key")
    case True
    then show ?thesis by (cases p) simp
  next
    case False
    then have "(key, v) \<in> set ps" using Cons.prems by auto
    from Cons.IH[OF this] False show ?thesis by (cases p) simp
  qed
qed

fun sortObjectKeys :: "'n json \<Rightarrow> 'n json" where
  "sortObjectKeys (JArr xs) = JArr (map sortObjectKeys xs)"
| "sortObjectKeys (JObj ps) =
     JObj (foldl (\<lambda>sorted key. js_set key (sortObjectKeys (the (map_of ps key))) sorted) []
            (sort (map fst ps)))"
| "sortObjectKeys v = v"

text \<open>
  \<open>hashObject\<close> (lines 31-43): the spread copy, the \<open>delete\<close> loop over \<open>dynamicFields\<close>,
  \<open>sortObjectKeys\<close>, \<open>JSON.stringify\<close>, \<open>hashString\<close>.
\<close>

definition dynamicFields :: "string list \<Rightarrow> string list" where
  "dynamicFields excludeKeys = [''id'', ''date'', ''modified'', ''guid'', ''link''] @ excludeKeys"

definition filtered :: "'n json \<Rightarrow> string list \<Rightarrow> 'n json props" where
  "filtered obj excludeKeys =
     foldl (\<lambda>f key. js_delete key f) (spread obj) (dynamicFields excludeKeys)"

text \<open>The string that \<open>hashObject\<close> passes to \<open>hashString\<close>.\<close>

definition canonical_text :: "('n \<Rightarrow> string) \<Rightarrow> 'n json \<Rightarrow> string list \<Rightarrow> string" where
  "canonical_text num obj excludeKeys =
     JSON_stringify num (sortObjectKeys (JObj (filtered obj excludeKeys)))"

definition hashObject :: "sha256 \<Rightarrow> ('n \<Rightarrow> string) \<Rightarrow> 'n json \<Rightarrow> string list \<Rightarrow> string" where
  "hashObject H num obj excludeKeys = hashString H (canonical_text num obj excludeKeys)"

subsection \<open>\<open>generateChecksums\<close>\<close>

text \<open>
  The checksums object (lines 72-76, 107, 118). \<open>files\<close> and \<open>media\<close> are objects from
  file name to hash, kept as their own properties in enumeration order; a field that a
  loaded object may lack is an option.
\<close>

record checksums =
  version :: nat
  generated :: string
  files :: "string props option"
  media :: "string props option"
  combined :: string

definition endsWith :: "string \<Rightarrow> string \<Rightarrow> bool" where
  "endsWith s suffix = (length suffix \<le> length s \<and> drop (length s - length suffix) s = suffix)"

text \<open>An object from file name to hash, as a value; and \<open>value || {}\<close>.\<close>

definition hashes_value :: "string props \<Rightarrow> 'n json" where
  "hashes_value hs = JObj (map (\<lambda>(file, hash). (file, JStr hash)) hs)"

definition or_empty :: "'v props option \<Rightarrow> 'v props" where
  "or_empty m = (case m of None \<Rightarrow> [] | Some ps \<Rightarrow> ps)"

text \<open>The loop over the content directory (lines 93-101): the extension files.\<close>

fun hashExtensionFiles ::
  "sha256 \<Rightarrow> node \<Rightarrow> path \<Rightarrow> string list \<Rightarrow> string props \<Rightarrow> fs_error + string props" where
  "hashExtensionFiles H fs contentDir [] fileHashes = Inr fileHashes"
| "hashExtensionFiles H fs contentDir (file # rest) fileHashes =
     (if endsWith file ''.json''
         \<and> file \<notin> set [''metadata.json'', ''media-mapping.json'', ''checksums.json'']
      then (case stat_isFile fs (contentDir @ [file]) of
              Inl e \<Rightarrow> Inl e
            | Inr isFile \<Rightarrow>
                if isFile
                then (case hashFile H fs (contentDir @ [file]) of
                        Inl e \<Rightarrow> Inl e
                      | Inr h \<Rightarrow> hashExtensionFiles H fs contentDir rest (js_set file h fileHashes))
                else hashExtensionFiles H fs contentDir rest fileHashes)
      else hashExtensionFiles H fs contentDir rest fileHashes)"

text \<open>The loop over the media directory (lines 108-114).\<close>

fun hashMediaFiles ::
  "sha256 \<Rightarrow> node \<Rightarrow> path \<Rightarrow> string list \<Rightarrow> string props \<Rightarrow> fs_error + string props" where
  "hashMediaFiles H fs mediaDir [] mediaHashes = Inr mediaHashes"
| "hashMediaFiles H fs mediaDir (file # rest) mediaHashes =
     (case stat_isFile fs (mediaDir @ [file]) of
        Inl e \<Rightarrow> Inl e
      | Inr isFile \<Rightarrow>
          if isFile
          then (case hashFile H fs (mediaDir @ [file]) of
                  Inl e \<Rightarrow> Inl e
                | Inr h \<Rightarrow> hashMediaFiles H fs mediaDir rest (js_set file h mediaHashes))
          else hashMediaFiles H fs mediaDir rest mediaHashes)"

definition hashBody :: "sha256 \<Rightarrow> node \<Rightarrow> path \<Rightarrow> string props \<Rightarrow> fs_error + string props" where
  "hashBody H fs contentDir fileHashes =
     (let bodyPath = contentDir @ [''body.html''] in
      if pathExists fs bodyPath
      then (case hashFile H fs bodyPath of
              Inl e \<Rightarrow> Inl e
            | Inr h \<Rightarrow> Inr (js_set ''body.html'' h fileHashes))
      else Inr fileHashes)"

definition hashMetadata ::
  "sha256 \<Rightarrow> ('n \<Rightarrow> string) \<Rightarrow> (byte list \<Rightarrow> 'n json option) \<Rightarrow> node \<Rightarrow> path \<Rightarrow> string props
     \<Rightarrow> fs_error + string props" where
  "hashMetadata H num parse fs contentDir fileHashes =
     (let metadataPath = contentDir @ [''metadata.json''] in
      if pathExists fs metadataPath
      then (case readJson parse fs metadataPath of
              Inl e \<Rightarrow> Inl e
            | Inr metadata \<Rightarrow> Inr (js_set ''metadata.json'' (hashObject H num metadata []) fileHashes))
      else Inr fileHashes)"

definition hashMedia :: "sha256 \<Rightarrow> node \<Rightarrow> path \<Rightarrow> fs_error + string props option" where
  "hashMedia H fs contentDir =
     (let mediaDir = contentDir @ [''media''] in
      if pathExists fs mediaDir
      then (case readdir fs mediaDir of
              Inl e \<Rightarrow> Inl e
            | Inr mediaFiles \<Rightarrow>
                (case hashMediaFiles H fs mediaDir mediaFiles [] of
                   Inl e \<Rightarrow> Inl e
                 | Inr mediaHashes \<Rightarrow> Inr (Some mediaHashes)))
      else Inr None)"

text \<open>
  \<open>generateChecksums\<close> (lines 71-121), a step at a time: \<open>body.html\<close>, \<open>metadata.json\<close>,
  the extension files, the media directory, the combined hash. \<open>now\<close> is
  \<open>new Date().toISOString()\<close>. An error of any step is the error of the whole.
\<close>

definition generateChecksums ::
  "sha256 \<Rightarrow> ('n \<Rightarrow> string) \<Rightarrow> (byte list \<Rightarrow> 'n json option) \<Rightarrow> string \<Rightarrow> node \<Rightarrow> path
     \<Rightarrow> fs_error + checksums" where
  "generateChecksums H num parse now fs contentDir =
     (case hashBody H fs contentDir [] of
        Inl e \<Rightarrow> Inl e
      | Inr files1 \<Rightarrow>
     (case hashMetadata H num parse fs contentDir files1 of
        Inl e \<Rightarrow> Inl e
      | Inr files2 \<Rightarrow>
     (case readdir fs contentDir of
        Inl e \<Rightarrow> Inl e
      | Inr listing \<Rightarrow>
     (case hashExtensionFiles H fs contentDir listing files2 of
        Inl e \<Rightarrow> Inl e
      | Inr files3 \<Rightarrow>
     (case hashMedia H fs contentDir of
        Inl e \<Rightarrow> Inl e
      | Inr mediaHashes \<Rightarrow>
          Inr \<lparr> version = 1, generated = now, files = Some files3, media = mediaHashes,
                combined = hashString H (JSON_stringify num (hashes_value files3)
                             @ JSON_stringify num (hashes_value (or_empty mediaHashes))) \<rparr>)))))"

subsection \<open>\<open>compareChecksums\<close>\<close>

text \<open>
  \<open>compareChecksums\<close> (lines 150-211). \<open>target[key]\<close> is read from an object whose
  prototype is \<open>Object.prototype\<close>: an own property, else a member of the prototype (a
  function or an object, never a string), else \<open>undefined\<close>.
\<close>

datatype jsval = Undefined | Str string | Inherited

definition object_prototype_keys :: "string list" where
  "object_prototype_keys =
     [''constructor'', ''__defineGetter__'', ''__defineSetter__'', ''hasOwnProperty'',
      ''__lookupGetter__'', ''__lookupSetter__'', ''isPrototypeOf'', ''propertyIsEnumerable'',
      ''toString'', ''valueOf'', ''__proto__'', ''toLocaleString'']"

definition js_get :: "string props \<Rightarrow> string \<Rightarrow> jsval" where
  "js_get ps k =
     (case map_of ps k of
        Some h \<Rightarrow> Str h
      | None \<Rightarrow> if k \<in> set object_prototype_keys then Inherited else Undefined)"

text \<open>\<open>!value\<close>: \<open>undefined\<close> and the empty string are falsy.\<close>

definition falsy :: "jsval \<Rightarrow> bool" where
  "falsy v = (v = Undefined \<or> v = Str [])"

record details =
  details_files :: "string list"
  details_media :: "string list"

record result =
  changed :: bool
  reason :: string
  details :: details

text \<open>
  The loops over \<open>Object.entries(exportFiles)\<close> and \<open>Object.entries(exportMedia)\<close>
  (lines 176-180, 186-190), and the loop for new media files (lines 193-199).
\<close>

definition changedEntries :: "string props \<Rightarrow> string props \<Rightarrow> string list" where
  "changedEntries exportEntries remoteEntries =
     foldl (\<lambda>acc (file, hash). if js_get remoteEntries file \<noteq> Str hash then acc @ [file] else acc)
       [] exportEntries"

definition newMedia :: "string props \<Rightarrow> string props \<Rightarrow> string list \<Rightarrow> string list" where
  "newMedia exportMedia remoteMedia changedMedia =
     foldl (\<lambda>acc file.
              if falsy (js_get remoteMedia file)
              then (if file \<notin> set acc then acc @ [file] else acc)
              else acc)
       changedMedia (map fst exportMedia)"

definition compareChecksums :: "checksums \<Rightarrow> checksums option \<Rightarrow> result" where
  "compareChecksums exportChecksums remoteChecksums =
     (case remoteChecksums of
        None \<Rightarrow>
          \<lparr> changed = True, reason = ''no-remote-checksums'',
            details = \<lparr> details_files = [], details_media = [] \<rparr> \<rparr>
      | Some remote \<Rightarrow>
          if combined exportChecksums = combined remote
          then \<lparr> changed = False, reason = ''combined-match'',
                 details = \<lparr> details_files = [], details_media = [] \<rparr> \<rparr>
          else
            let exportFiles = or_empty (files exportChecksums);
                remoteFiles = or_empty (files remote);
                changedFiles = changedEntries exportFiles remoteFiles;
                exportMedia = or_empty (media exportChecksums);
                remoteMedia = or_empty (media remote);
                changedMedia = newMedia exportMedia remoteMedia (changedEntries exportMedia remoteMedia);
                changed = (length changedFiles > 0 \<or> length changedMedia > 0)
            in \<lparr> changed = changed,
                 reason = (if changed then ''content-changed'' else ''match''),
                 details = \<lparr> details_files = changedFiles, details_media = changedMedia \<rparr> \<rparr>)"

section \<open>The specification's own terms, and example inputs\<close>

text \<open>The specification's \<open>digestOfBytes\<close>: the hash of raw bytes.\<close>

definition digestOfBytes :: "sha256 \<Rightarrow> byte list \<Rightarrow> string" where
  "digestOfBytes H bytes = H bytes"

text \<open>
  A content directory with a body, a metadata document, one extension file, the reserved
  \<open>checksums.json\<close>, and a media directory holding a file and a subdirectory.
\<close>

definition example_bundle :: node where
  "example_bundle =
     Dir [(''seo.json'', File [0x7B, 0x7D]),
          (''body.html'', File [0x3C, 0x70, 0x3E]),
          (''checksums.json'', File [0x7B, 0x7D]),
          (''metadata.json'', File [0x7B, 0x7D]),
          (''media'', Dir [(''photo.jpg'', File [1, 2, 3]), (''thumbs'', Dir [])])]"

definition example_parse :: "byte list \<Rightarrow> nat json option" where
  "example_parse bytes = Some (JObj [(''id'', JNum 1), (''title'', JStr ''Hi'')])"

definition example_fresh :: checksums where
  "example_fresh =
     \<lparr> version = 1, generated = ''2024-01-02T00:00:00.000Z'',
       files = Some [(''body.html'', ''aa''), (''metadata.json'', ''bb'')],
       media = Some [(''photo.jpg'', ''cc'')],
       combined = ''dd'' \<rparr>"

definition example_stored :: checksums where
  "example_stored =
     \<lparr> version = 1, generated = ''2024-01-01T00:00:00.000Z'',
       files = Some [(''metadata.json'', ''bb''), (''body.html'', ''aa''), (''old.json'', ''ee'')],
       media = Some [(''photo.jpg'', ''cc''), (''removed.png'', ''ff'')],
       combined = ''gg'' \<rparr>"

definition example_new_media :: checksums where
  "example_new_media =
     \<lparr> version = 1, generated = ''2024-01-03T00:00:00.000Z'',
       files = Some [(''body.html'', ''aa''), (''metadata.json'', ''bb'')],
       media = Some [(''logo.png'', ''hh''), (''photo.jpg'', ''cc'')],
       combined = ''ii'' \<rparr>"

text \<open>What \<open>generateChecksums\<close> returns on the example directory.\<close>

definition example_checksums :: "sha256 \<Rightarrow> checksums" where
  "example_checksums H =
     \<lparr> version = 1, generated = ''2024-01-01T00:00:00.000Z'',
       files = Some [(''body.html'', H [0x3C, 0x70, 0x3E]),
                     (''metadata.json'', hashObject H dec (JObj [(''title'', JStr ''Hi'')]) []),
                     (''seo.json'', H [0x7B, 0x7D])],
       media = Some [(''photo.jpg'', H [1, 2, 3])],
       combined = hashString H
         (JSON_stringify dec
            (hashes_value [(''body.html'', H [0x3C, 0x70, 0x3E]),
                           (''metadata.json'', hashObject H dec (JObj [(''title'', JStr ''Hi'')]) []),
                           (''seo.json'', H [0x7B, 0x7D])] :: nat json)
          @ JSON_stringify dec (hashes_value [(''photo.jpg'', H [1, 2, 3])] :: nat json)) \<rparr>"

text \<open>
  The order in which an object that received the keys \<open>ks\<close> enumerates them: the array
  indices in ascending numeric order, then the other keys in ascending order of their
  code units.
\<close>

definition key_order :: "string list \<Rightarrow> string list" where
  "key_order ks =
     sort_key index_value (filter is_array_index ks) @ sort (filter (\<lambda>k. \<not> is_array_index k) ks)"

text \<open>
  Two values that are field-identical up to the order of the keys of their objects, at
  every depth.
\<close>

fun same_up_to_key_order :: "'n json \<Rightarrow> 'n json \<Rightarrow> bool" where
  "same_up_to_key_order (JArr xs) (JArr ys) = list_all2 same_up_to_key_order xs ys"
| "same_up_to_key_order (JObj ps) (JObj qs) =
     (distinct (map fst ps) \<and> distinct (map fst qs) \<and> fst ` set ps = fst ` set qs
      \<and> (\<forall>(k, v)\<in>set ps. case map_of qs k of None \<Rightarrow> False | Some v' \<Rightarrow> same_up_to_key_order v v'))"
| "same_up_to_key_order v v' = (v = v' \<and> (case v of JArr xs \<Rightarrow> False | JObj ps \<Rightarrow> False | _ \<Rightarrow> True))"

text \<open>An object's properties with the value of the property \<open>k\<close> replaced.\<close>

definition with_field :: "string \<Rightarrow> 'v \<Rightarrow> 'v props \<Rightarrow> 'v props" where
  "with_field k v ps = map (\<lambda>(k', v'). if k' = k then (k', v) else (k', v')) ps"

text \<open>A metadata document, and the same document with the keys in another order.\<close>

definition example_metadata :: "nat json" where
  "example_metadata =
     JObj [(''id'', JNum 1), (''title'', JStr ''Hi''),
           (''meta'', JObj [(''b'', JNum 2), (''a'', JArr [JObj [(''y'', JNull), (''x'', JBool True)]])])]"

definition example_reordered :: "nat json" where
  "example_reordered =
     JObj [(''meta'', JObj [(''a'', JArr [JObj [(''x'', JBool True), (''y'', JNull)]]), (''b'', JNum 2)]),
           (''title'', JStr ''Hi''), (''id'', JNum 1)]"

text \<open>An object with array indices among its keys, at two depths.\<close>

definition example_keys :: "nat json" where
  "example_keys =
     JObj [(''b'', JNum 1), (''10'', JNum 1), (''a'', JArr [JStr ''x'', JNull]),
           (''2'', JObj [(''z'', JBool True), (''5'', JBool False)])]"

text \<open>
  Two exports of one post that differ in \<open>id\<close> and \<open>date\<close>, and a post with a nested
  object that has an \<open>id\<close> of its own.
\<close>

definition example_post_a :: "nat json props" where
  "example_post_a = [(''id'', JNum 1), (''date'', JStr ''x''), (''title'', JStr ''t'')]"

definition example_post_b :: "nat json props" where
  "example_post_b = [(''id'', JNum 2), (''date'', JStr ''y''), (''title'', JStr ''t'')]"

definition example_author :: "nat json props" where
  "example_author = [(''id'', JNum 5), (''name'', JStr ''n'')]"

definition example_nested :: "nat json props" where
  "example_nested = [(''id'', JNum 1), (''title'', JStr ''t''), (''author'', JObj example_author)]"

text \<open>A hash without collisions, to stand for the library's where one is assumed.\<close>

definition example_hash :: sha256 where
  "example_hash bytes = map (\<lambda>b. char_of (unat b)) bytes"

section \<open>Notation for the proofs\<close>

text \<open>The body of the loop of \<open>sortObjectKeys\<close>, and the numeric value of an entry's key.\<close>

abbreviation (input) assign :: "'v props \<Rightarrow> string \<times> 'v \<Rightarrow> 'v props" where
  "assign \<equiv> (\<lambda>sorted (key, v). js_set key v sorted)"

abbreviation (input) idx_of :: "string \<times> 'v \<Rightarrow> nat" where
  "idx_of \<equiv> (\<lambda>p. index_value (fst p))"


section \<open>Properties of \<open>hashObject\<close>\<close>

subsection \<open>Array indices\<close>
lemma digit_roundtrip: "d < 10 \<Longrightarrow> digit_val (digit_char d) = d \<and> is_digit (digit_char d)"
proof -
  assume "d < 10"
  then have "d \<in> {0,1,2,3,4,5,6,7,8,9}" by auto
  then show ?thesis by (auto simp: digit_val_def digit_char_def is_digit_def)
qed

lemma index_value_snoc: "index_value (k @ [c]) = 10 * index_value k + digit_val c"
  by (simp add: index_value_def)

lemma index_value_dec: "index_value (dec n) = n"
proof (induction n rule: dec.induct)
  case (1 n)
  show ?case
  proof (cases "n < 10")
    case True
    then show ?thesis using digit_roundtrip[of n] by (subst dec.simps) (simp add: index_value_def)
  next
    case False
    then have "index_value (dec (n div 10)) = n div 10" using 1 by simp
    moreover have "digit_val (digit_char (n mod 10)) = n mod 10"
      using digit_roundtrip[of "n mod 10"] by simp
    ultimately show ?thesis using False by (subst dec.simps) (simp add: index_value_snoc)
  qed
qed

lemma dec_inj: "dec m = dec n \<Longrightarrow> m = n"
  by (metis index_value_dec)

lemma is_array_index_inj:
  "is_array_index k \<Longrightarrow> is_array_index k' \<Longrightarrow> index_value k = index_value k' \<Longrightarrow> k = k'"
  by (metis is_array_index_def)

lemma proto_not_index: "\<not> is_array_index ''__proto__''"
  by (simp add: is_array_index_def is_digit_def)

lemma insert_index_insort:
  assumes "\<forall>p\<in>set A. is_array_index (fst p)" and "\<forall>p\<in>set B. \<not> is_array_index (fst p)"
  shows "insert_index k v (A @ B) = insort_key idx_of (k, v) A @ B"
  using assms
proof (induction A)
  case Nil
  then show ?case by (cases B) auto
next
  case (Cons a A)
  then show ?case by (cases a) auto
qed

lemma foldl_assign:
  assumes "\<forall>p\<in>set A. is_array_index (fst p)" and "\<forall>p\<in>set B. \<not> is_array_index (fst p)"
    and "distinct (map fst L)" and "fst ` set L \<inter> fst ` set (A @ B) = {}"
  shows "foldl assign (A @ B) L =
           fold (insort_key idx_of) (filter (\<lambda>p. is_array_index (fst p)) L) A
           @ B @ filter (\<lambda>p. \<not> is_array_index (fst p) \<and> fst p \<noteq> ''__proto__'') L"
  using assms
proof (induction L arbitrary: A B)
  case Nil
  then show ?case by simp
next
  case (Cons e L)
  obtain k v where e: "e = (k, v)" by (cases e)
  have fresh: "k \<notin> fst ` set (A @ B)" using Cons.prems(4) e by auto
  have dL: "distinct (map fst L)" and kL: "k \<notin> fst ` set L" using Cons.prems(3) e by auto
  show ?case
  proof (cases "k = ''__proto__''")
    case True
    have "assign (A @ B) e = A @ B" using True e by (simp add: js_set_def)
    moreover have "fst ` set L \<inter> fst ` set (A @ B) = {}" using Cons.prems(4) by auto
    ultimately show ?thesis
      using Cons.IH[OF Cons.prems(1,2) dL] True e proto_not_index by simp
  next
    case False
    show ?thesis
    proof (cases "is_array_index k")
      case True
      have s: "assign (A @ B) e = insort_key idx_of (k, v) A @ B"
        using False True fresh e insert_index_insort[OF Cons.prems(1,2)]
        by (simp add: js_set_def)
      have a: "\<forall>p\<in>set (insort_key idx_of (k, v) A). is_array_index (fst p)"
        using True Cons.prems(1) by (auto simp: set_insort_key)
      have d: "fst ` set L \<inter> fst ` set (insort_key idx_of (k, v) A @ B) = {}"
        using Cons.prems(4) kL by (auto simp: set_insort_key)
      show ?thesis using Cons.IH[OF a Cons.prems(2) dL d] s True e by simp
    next
      case nidx: False
      have s: "assign (A @ B) e = A @ (B @ [(k, v)])"
        using False nidx fresh e by (simp add: js_set_def)
      have b: "\<forall>p\<in>set (B @ [(k, v)]). \<not> is_array_index (fst p)"
        using nidx Cons.prems(2) by auto
      have d: "fst ` set L \<inter> fst ` set (A @ (B @ [(k, v)])) = {}"
        using Cons.prems(4) kL by auto
      show ?thesis using Cons.IH[OF Cons.prems(1) b dL d] s nidx False e by simp
    qed
  qed
qed

lemma distinct_keys_sort: "distinct (map fst (sort_key f ps)) = distinct (map fst ps)"
  by (simp add: distinct_map)

lemma idx_inj_on:
  assumes "distinct (map fst ps)"
  shows "inj_on idx_of (set (filter (\<lambda>p. is_array_index (fst p)) ps))"
proof (rule inj_onI)
  fix p q
  assume p: "p \<in> set (filter (\<lambda>p. is_array_index (fst p)) ps)"
    and q: "q \<in> set (filter (\<lambda>p. is_array_index (fst p)) ps)" and e: "idx_of p = idx_of q"
  then have "fst p = fst q" by (auto intro: is_array_index_inj)
  moreover have "inj_on fst (set ps)" using assms by (simp add: distinct_map)
  ultimately show "p = q" using p q by (auto dest: inj_onD)
qed

lemma sort_key_unique:
  assumes "inj_on f (set xs)" and "set xs = set ys" and "distinct xs" and "distinct ys"
  shows "sort_key f xs = sort_key f ys"
proof (rule map_sorted_distinct_set_unique[where f = f])
  show "inj_on f (set (sort_key f xs) \<union> set (sort_key f ys))" using assms by simp
  show "distinct (map f (sort_key f xs))" using assms by (simp add: distinct_map)
  show "distinct (map f (sort_key f ys))" using assms by (simp add: distinct_map)
  show "set (sort_key f xs) = set (sort_key f ys)" using assms by simp
qed simp_all

text \<open>The properties of the object that the loop of \<open>sortObjectKeys\<close> builds.\<close>

lemma foldl_assign_sorted:
  assumes "distinct (map fst ps)"
  shows "foldl assign [] (sort_key fst ps) =
           sort_key idx_of (filter (\<lambda>p. is_array_index (fst p)) ps)
           @ sort_key fst (filter (\<lambda>p. \<not> is_array_index (fst p) \<and> fst p \<noteq> ''__proto__'') ps)"
proof -
  let ?L = "sort_key fst ps"
  have dps: "distinct ps" using assms by (simp add: distinct_map)
  have dL: "distinct (map fst ?L)" using assms by (simp add: distinct_keys_sort)
  have "foldl assign ([] @ []) ?L =
          fold (insort_key idx_of) (filter (\<lambda>p. is_array_index (fst p)) ?L) []
          @ [] @ filter (\<lambda>p. \<not> is_array_index (fst p) \<and> fst p \<noteq> ''__proto__'') ?L"
    by (rule foldl_assign) (use dL in simp_all)
  moreover have "fold (insort_key idx_of) (filter (\<lambda>p. is_array_index (fst p)) ?L) []
                   = sort_key idx_of (filter (\<lambda>p. is_array_index (fst p)) ?L)"
    using idx_inj_on[OF dL] by (simp add: sort_key_conv_fold)
  moreover have "sort_key idx_of (filter (\<lambda>p. is_array_index (fst p)) ?L)
                   = sort_key idx_of (filter (\<lambda>p. is_array_index (fst p)) ps)"
    by (rule sort_key_unique) (use idx_inj_on[OF dL] dps in simp_all)
  ultimately show ?thesis by (simp add: filter_sort)
qed


lemma map_fst_insort_key:
  "map fst (insort_key (\<lambda>p. g (fst p)) x xs) = insort_key g (fst x) (map fst xs)"
  by (induction xs) auto

lemma map_fst_sort_key: "map fst (sort_key (\<lambda>p. g (fst p)) xs) = sort_key g (map fst xs)"
  by (induction xs) (auto simp: map_fst_insort_key)

lemma map_fst_filter: "map fst (filter (\<lambda>p. P (fst p)) xs) = filter P (map fst xs)"
  by (induction xs) auto

lemma fst_map_value [simp]: "fst \<circ> (\<lambda>(k, v). (k, f v)) = fst"
  by (rule ext) auto

lemma keys_map_values: "map fst (map (\<lambda>(k, v). (k, f v)) ps) = map fst ps"
  by simp

lemma entries_from_keys:
  assumes "distinct (map fst ps)" and "set R \<subseteq> set ps"
  shows "R = map (\<lambda>k. (k, the (map_of ps k))) (map fst R)"
  using assms(2)
proof (induction R)
  case Nil
  then show ?case by simp
next
  case (Cons r R)
  obtain k v where r: "r = (k, v)" by (cases r)
  then have "map_of ps k = Some v" using Cons.prems assms(1) by simp
  then show ?case using Cons r by simp
qed

text \<open>
  The loop of \<open>sortObjectKeys\<close> over the sorted keys is the loop over the entries sorted
  by their keys, each with its sorted value.
\<close>

lemma sortObjectKeys_obj:
  assumes "distinct (map fst ps)"
  shows "sortObjectKeys (JObj ps) =
           JObj (foldl assign [] (sort_key fst (map (\<lambda>(k, v). (k, sortObjectKeys v)) ps)))"
proof -
  let ?ps' = "map (\<lambda>(k, v). (k, sortObjectKeys v)) ps"
  have d: "distinct (map fst ?ps')" using assms by simp
  have keys: "map fst (sort_key fst ?ps') = sort (map fst ps)"
    using map_fst_sort_key[of "\<lambda>k. k" ?ps'] by simp
  have "sort_key fst ?ps' = map (\<lambda>k. (k, the (map_of ?ps' k))) (map fst (sort_key fst ?ps'))"
    by (rule entries_from_keys[OF d]) simp
  then have e: "sort_key fst ?ps' = map (\<lambda>k. (k, the (map_of ?ps' k))) (sort (map fst ps))"
    by (simp only: keys)
  have v: "the (map_of ?ps' k) = sortObjectKeys (the (map_of ps k))" if "k \<in> set (sort (map fst ps))" for k
  proof -
    from that have "k \<in> fst ` set ps" by simp
    then obtain x where "map_of ps k = Some x" using assms by (auto simp: weak_map_of_SomeI)
    then show ?thesis by (simp add: map_of_map)
  qed
  have "foldl assign [] (sort_key fst ?ps')
          = foldl (\<lambda>sorted key. js_set key (the (map_of ?ps' key)) sorted) [] (sort (map fst ps))"
    by (simp only: e foldl_map) simp
  also have "\<dots> = foldl (\<lambda>sorted key. js_set key (sortObjectKeys (the (map_of ps key))) sorted) []
                     (sort (map fst ps))"
    by (rule foldl_cong) (simp_all only: v)
  finally show ?thesis by simp
qed

lemma sortObjectKeys_props:
  assumes "distinct (map fst ps)"
  shows "sortObjectKeys (JObj ps) =
           JObj (sort_key idx_of (filter (\<lambda>p. is_array_index (fst p)) (map (\<lambda>(k, v). (k, sortObjectKeys v)) ps))
                 @ sort_key fst (filter (\<lambda>p. \<not> is_array_index (fst p) \<and> fst p \<noteq> ''__proto__'')
                      (map (\<lambda>(k, v). (k, sortObjectKeys v)) ps)))"
  using assms by (simp only: sortObjectKeys_obj) (simp add: foldl_assign_sorted)

lemma sortObjectKeys_keys:
  assumes "distinct (map fst ps)" and "''__proto__'' \<notin> fst ` set ps"
  shows "sortObjectKeys (JObj ps) =
           JObj (map (\<lambda>k. (k, sortObjectKeys (the (map_of ps k)))) (key_order (map fst ps)))"
proof -
  let ?ps' = "map (\<lambda>(k, v). (k, sortObjectKeys v)) ps"
  let ?R = "sort_key idx_of (filter (\<lambda>p. is_array_index (fst p)) ?ps')
            @ sort_key fst (filter (\<lambda>p. \<not> is_array_index (fst p) \<and> fst p \<noteq> ''__proto__'') ?ps')"
  have d: "distinct (map fst ?ps')" using assms(1) by simp
  have np: "filter (\<lambda>p. \<not> is_array_index (fst p) \<and> fst p \<noteq> ''__proto__'') ?ps'
              = filter (\<lambda>p. \<not> is_array_index (fst p)) ?ps'"
    using assms(2) by (intro filter_cong) force+
  have k1: "map fst (sort_key idx_of (filter (\<lambda>p. is_array_index (fst p)) ?ps'))
              = sort_key index_value (filter is_array_index (map fst ps))"
    by (simp only: map_fst_sort_key[of index_value] map_fst_filter[of is_array_index]
        keys_map_values)
  have k2: "map fst (sort_key fst (filter (\<lambda>p. \<not> is_array_index (fst p)) ?ps'))
              = sort (filter (\<lambda>k. \<not> is_array_index k) (map fst ps))"
    using map_fst_sort_key[of "\<lambda>k. k" "filter (\<lambda>p. \<not> is_array_index (fst p)) ?ps'"]
      map_fst_filter[of "\<lambda>k. \<not> is_array_index k" ?ps']
    by (simp only: keys_map_values)
  have keys: "map fst ?R = key_order (map fst ps)"
    unfolding np key_order_def map_append k1 k2 ..
  have sub: "set ?R \<subseteq> set ?ps'" by auto
  have "?R = map (\<lambda>k. (k, the (map_of ?ps' k))) (key_order (map fst ps))"
    using entries_from_keys[OF d sub] unfolding keys .
  moreover have "\<forall>k\<in>set (key_order (map fst ps)). the (map_of ?ps' k) = sortObjectKeys (the (map_of ps k))"
  proof
    fix k assume "k \<in> set (key_order (map fst ps))"
    then have "k \<in> fst ` set ps" by (auto simp: key_order_def)
    then obtain v where "map_of ps k = Some v" using assms(1) by (auto simp: weak_map_of_SomeI)
    then show "the (map_of ?ps' k) = sortObjectKeys (the (map_of ps k))"
      by (simp add: map_of_map)
  qed
  ultimately have "?R = map (\<lambda>k. (k, sortObjectKeys (the (map_of ps k)))) (key_order (map fst ps))"
    by (simp only: map_eq_conv) simp
  then show ?thesis using sortObjectKeys_props[OF assms(1)] by (simp only:)
qed

lemma key_order_no_index:
  "\<forall>k\<in>set ks. \<not> is_array_index k \<Longrightarrow> key_order ks = sort ks"
  by (simp add: key_order_def filter_empty_conv[THEN iffD2] filter_id_conv[THEN iffD2])


subsection \<open>Invariance under the order of the keys\<close>

lemma entries_set_eq:
  assumes "distinct (map fst ps)" and "distinct (map fst qs)" and "fst ` set ps = fst ` set qs"
    and "\<forall>(k, v)\<in>set ps. \<exists>v'. map_of qs k = Some v' \<and> f v = f v'"
  shows "set (map (\<lambda>(k, v). (k, f v)) ps) = set (map (\<lambda>(k, v). (k, f v)) qs)"
proof (rule set_eqI, rule iffI)
  fix e assume "e \<in> set (map (\<lambda>(k, v). (k, f v)) ps)"
  then obtain k v where kv: "(k, v) \<in> set ps" "e = (k, f v)" by auto
  then obtain v' where "map_of qs k = Some v'" "f v = f v'" using assms(4) by blast
  then have "(k, f v') \<in> set (map (\<lambda>(k, v). (k, f v)) qs)"
    by (force dest: map_of_SomeD)
  then show "e \<in> set (map (\<lambda>(k, v). (k, f v)) qs)" using kv \<open>f v = f v'\<close> by simp
next
  fix e assume "e \<in> set (map (\<lambda>(k, v). (k, f v)) qs)"
  then obtain k v' where kv: "(k, v') \<in> set qs" "e = (k, f v')" by auto
  then have "k \<in> fst ` set ps" using assms(3) by force
  then obtain v where v: "(k, v) \<in> set ps" by auto
  then obtain v'' where "map_of qs k = Some v''" "f v = f v''" using assms(4) by blast
  moreover have "map_of qs k = Some v'" using kv(1) assms(2) by simp
  ultimately have "f v = f v'" by simp
  then show "e \<in> set (map (\<lambda>(k, v). (k, f v)) ps)" using v kv(2) by force
qed

lemma sortObjectKeys_related:
  assumes "distinct (map fst ps)" and "distinct (map fst qs)" and "fst ` set ps = fst ` set qs"
    and "\<forall>(k, v)\<in>set ps. \<exists>v'. map_of qs k = Some v' \<and> sortObjectKeys v = sortObjectKeys v'"
  shows "sortObjectKeys (JObj ps) = sortObjectKeys (JObj qs)"
proof -
  let ?ps' = "map (\<lambda>(k, v). (k, sortObjectKeys v)) ps"
  let ?qs' = "map (\<lambda>(k, v). (k, sortObjectKeys v)) qs"
  have s: "set ?ps' = set ?qs'" using assms by (rule entries_set_eq)
  have dp: "distinct (map fst ?ps')" and dq: "distinct (map fst ?qs')" using assms(1,2) by simp_all
  have "sort_key fst ?ps' = sort_key fst ?qs'"
  proof (rule sort_key_unique)
    show "inj_on fst (set ?ps')" using dp by (simp only: distinct_map)
    show "distinct ?ps'" using dp by (simp only: distinct_map)
    show "distinct ?qs'" using dq by (simp only: distinct_map)
  qed (rule s)
  then show ?thesis by (simp only: sortObjectKeys_obj[OF assms(1)] sortObjectKeys_obj[OF assms(2)])
qed

lemma map_eq_list_all2:
  "list_all2 P xs ys \<Longrightarrow> (\<And>x y. x \<in> set xs \<Longrightarrow> y \<in> set ys \<Longrightarrow> P x y \<Longrightarrow> f x = f y)
     \<Longrightarrow> map f xs = map f ys"
  by (induction rule: list_all2_induct) auto

lemma same_sortObjectKeys:
  "same_up_to_key_order v v' \<Longrightarrow> sortObjectKeys v = sortObjectKeys v'"
proof (induction v v' rule: same_up_to_key_order.induct)
  case (1 xs ys)
  then have "map sortObjectKeys xs = map sortObjectKeys ys"
    by (intro map_eq_list_all2[where P = same_up_to_key_order]) auto
  then show ?case by simp
next
  case (2 ps qs)
  have "\<forall>(k, v)\<in>set ps. \<exists>v'. map_of qs k = Some v' \<and> sortObjectKeys v = sortObjectKeys v'"
  proof (clarify)
    fix k v assume kv: "(k, v) \<in> set ps"
    with "2.prems" obtain v' where v': "map_of qs k = Some v'" "same_up_to_key_order v v'"
      by (fastforce split: option.splits)
    with "2.IH"[OF kv refl v'(1)] show "\<exists>v'. map_of qs k = Some v' \<and> sortObjectKeys v = sortObjectKeys v'"
      by simp
  qed
  with "2.prems" show ?case by (intro sortObjectKeys_related) simp_all
qed simp_all

lemma filtered_filter:
  "filtered obj E = filter (\<lambda>p. fst p \<notin> set (dynamicFields E)) (spread obj)"
proof -
  have "foldl (\<lambda>f key. js_delete key f) ps ks = filter (\<lambda>p. fst p \<notin> set ks) ps" for ps :: "'a json props" and ks
    by (induction ks arbitrary: ps) (auto simp: js_delete_def case_prod_unfold intro: filter_cong)
  then show ?thesis by (simp add: filtered_def)
qed


lemma map_of_key_filter:
  "map_of (filter (\<lambda>p. P (fst p)) qs) k = (if P k then map_of qs k else None)"
  by (induction qs) auto

lemma sortObjectKeys_related_filter:
  assumes "distinct (map fst ps)" and "distinct (map fst qs)" and "fst ` set ps = fst ` set qs"
    and "\<forall>(k, v)\<in>set ps. \<exists>v'. map_of qs k = Some v' \<and> sortObjectKeys v = sortObjectKeys v'"
  shows "sortObjectKeys (JObj (filter (\<lambda>p. P (fst p)) ps)) = sortObjectKeys (JObj (filter (\<lambda>p. P (fst p)) qs))"
proof (rule sortObjectKeys_related)
  show "distinct (map fst (filter (\<lambda>p. P (fst p)) ps))" using assms(1) by (rule distinct_map_filter)
  show "distinct (map fst (filter (\<lambda>p. P (fst p)) qs))" using assms(2) by (rule distinct_map_filter)
  have "fst ` set (filter (\<lambda>p. P (fst p)) xs) = {k \<in> fst ` set xs. P k}" for xs :: "'a json props"
    by force
  then show "fst ` set (filter (\<lambda>p. P (fst p)) ps) = fst ` set (filter (\<lambda>p. P (fst p)) qs)"
    using assms(3) by simp
  show "\<forall>(k, v)\<in>set (filter (\<lambda>p. P (fst p)) ps).
          \<exists>v'. map_of (filter (\<lambda>p. P (fst p)) qs) k = Some v' \<and> sortObjectKeys v = sortObjectKeys v'"
    using assms(4) by (auto simp: map_of_key_filter)
qed

lemma distinct_spread_keys: "distinct (map fst (map (\<lambda>i. (dec i, f i)) [0..<n]))"
  by (auto simp: distinct_map comp_def intro!: inj_onI dest: dec_inj)

lemma map_of_spread: "i < n \<Longrightarrow> map_of (map (\<lambda>i. (dec i, f i)) [0..<n]) (dec i) = Some (f i)"
proof -
  assume "i < n"
  then have "(dec i, f i) \<in> set (map (\<lambda>i. (dec i, f i)) [0..<n])" by auto
  then show ?thesis using distinct_spread_keys[of f n] by (simp only: map_of_is_SomeI)
qed

lemma same_spread:
  assumes "same_up_to_key_order v v'"
  shows "distinct (map fst (spread v)) \<and> distinct (map fst (spread v'))
       \<and> fst ` set (spread v) = fst ` set (spread v')
       \<and> (\<forall>(k, x)\<in>set (spread v). \<exists>x'. map_of (spread v') k = Some x' \<and> sortObjectKeys x = sortObjectKeys x')"
proof (cases v)
  case (JArr xs)
  then obtain ys where v': "v' = JArr ys" and r: "list_all2 same_up_to_key_order xs ys"
    using assms by (cases v') auto
  have len: "length xs = length ys" using r by (rule list_all2_lengthD)
  have "\<exists>x'. map_of (spread v') k = Some x' \<and> sortObjectKeys x = sortObjectKeys x'"
    if "(k, x) \<in> set (spread v)" for k x
  proof -
    from that JArr obtain i where i: "i < length xs" "k = dec i" "x = xs ! i" by auto
    then have "same_up_to_key_order (xs ! i) (ys ! i)" using r by (simp add: list_all2_nthD)
    then have "sortObjectKeys x = sortObjectKeys (ys ! i)" using i by (simp add: same_sortObjectKeys)
    moreover have "map_of (spread v') k = Some (ys ! i)"
      using i len v' map_of_spread[of i "length ys" "\<lambda>i. ys ! i"] by simp
    ultimately show ?thesis by simp
  qed
  moreover have "fst ` set (spread v) = fst ` set (spread v')"
    using JArr v' len by (simp add: image_image)
  ultimately show ?thesis
    using JArr v' distinct_spread_keys[of "\<lambda>i. xs ! i" "length xs"]
      distinct_spread_keys[of "\<lambda>i. ys ! i" "length ys"]
    by (simp only: spread.simps) blast
next
  case (JObj ps)
  then obtain qs where v': "v' = JObj qs" using assms by (cases v') auto
  have "\<exists>x'. map_of qs k = Some x' \<and> sortObjectKeys x = sortObjectKeys x'"
    if "(k, x) \<in> set ps" for k x
    using that assms JObj v' by (fastforce split: option.splits simp: same_sortObjectKeys)
  then show ?thesis using assms JObj v' by auto
next
  case (JStr s)
  then have v': "v' = v" using assms by (cases v') auto
  have d: "distinct (map fst (spread v))"
    using JStr distinct_spread_keys[of "\<lambda>i. JStr [s ! i]" "length s"] by simp
  then have "\<exists>x'. map_of (spread v) k = Some x' \<and> sortObjectKeys x = sortObjectKeys x'"
    if "(k, x) \<in> set (spread v)" for k x
    using that by auto
  then show ?thesis using d v' by auto
qed (use assms in \<open>cases v'; simp\<close>)+

text \<open>
  Claim C1. \<open>hashObject\<close> is a function of the value and the excluded keys, and two values
  that are equal up to the order of the keys of their objects, at the top level and at
  every depth, have the same hash, whatever the excluded keys.
\<close>

theorem hashObject_key_order:
  assumes "same_up_to_key_order v v'"
  shows "hashObject H num v excludeKeys = hashObject H num v' excludeKeys"
proof -
  note s = same_spread[OF assms]
  have "sortObjectKeys (JObj (filter (\<lambda>p. fst p \<notin> set (dynamicFields excludeKeys)) (spread v)))
      = sortObjectKeys (JObj (filter (\<lambda>p. fst p \<notin> set (dynamicFields excludeKeys)) (spread v')))"
    by (rule sortObjectKeys_related_filter)
      (rule s[THEN conjunct1] s[THEN conjunct2, THEN conjunct1]
        s[THEN conjunct2, THEN conjunct2, THEN conjunct1]
        s[THEN conjunct2, THEN conjunct2, THEN conjunct2])+
  then show ?thesis by (simp add: hashObject_def canonical_text_def filtered_filter)
qed

lemmas same_eval = example_metadata_def example_reordered_def

theorem hashObject_key_order_witness:
  "\<forall>H. same_up_to_key_order example_metadata example_reordered
     \<and> example_metadata \<noteq> example_reordered
     \<and> hashObject H dec example_metadata [] = hashObject H dec example_reordered []"
proof
  fix H :: sha256
  have s: "same_up_to_key_order example_metadata example_reordered"
    by (simp add: same_eval insert_commute)
  have "example_metadata \<noteq> example_reordered" by (simp add: same_eval)
  with s hashObject_key_order[OF s, of H dec "[]"]
  show "same_up_to_key_order example_metadata example_reordered
     \<and> example_metadata \<noteq> example_reordered
     \<and> hashObject H dec example_metadata [] = hashObject H dec example_reordered []"
    by simp
qed

subsection \<open>One field at a time\<close>

lemma with_field_Nil [simp]: "with_field k v [] = []"
  by (simp add: with_field_def)

lemma with_field_Cons [simp]:
  "with_field k v ((k', v') # ps) = (k', if k' = k then v else v') # with_field k v ps"
  by (simp add: with_field_def)

lemma keys_with_field [simp]: "map fst (with_field k v ps) = map fst ps"
  by (induction ps) auto

lemma with_field_filter:
  "filter (\<lambda>p. P (fst p)) (with_field k v ps) = with_field k v (filter (\<lambda>p. P (fst p)) ps)"
  by (induction ps) auto

lemma with_field_map:
  "map (\<lambda>(k, v). (k, f v)) (with_field k v ps) = with_field k (f v) (map (\<lambda>(k, v). (k, f v)) ps)"
  by (induction ps) auto

lemma with_field_append: "with_field k v (xs @ ys) = with_field k v xs @ with_field k v ys"
  by (simp add: with_field_def)

lemma with_field_insort:
  "insort_key (\<lambda>p. g (fst p)) (k', if k' = k then v else v') (with_field k v xs)
     = with_field k v (insort_key (\<lambda>p. g (fst p)) (k', v') xs)"
  by (induction xs) auto

lemma with_field_sort_key:
  "sort_key (\<lambda>p. g (fst p)) (with_field k v ps) = with_field k v (sort_key (\<lambda>p. g (fst p)) ps)"
proof (induction ps)
  case Nil
  then show ?case by simp
next
  case (Cons e ps)
  obtain k' v' where e: "e = (k', v')" by (cases e)
  show ?case using Cons with_field_insort[of g k' k v v'] by (simp add: e)
qed

lemma with_field_absent: "k \<notin> fst ` set ps \<Longrightarrow> with_field k v ps = ps"
  by (induction ps) auto

lemma with_field_split:
  assumes "distinct (map fst ps)" and "map_of ps k = Some u"
  shows "\<exists>xs ys. ps = xs @ (k, u) # ys \<and> with_field k v ps = xs @ (k, v) # ys"
proof -
  from assms(2) have "(k, u) \<in> set ps" by (rule map_of_SomeD)
  then obtain xs ys where s: "ps = xs @ (k, u) # ys" by (auto simp: in_set_conv_decomp)
  then have "k \<notin> fst ` set xs" and "k \<notin> fst ` set ys" using assms(1) by auto
  then have "with_field k v xs = xs" and "with_field k v ys = ys"
    by (simp_all add: with_field_absent)
  then have "with_field k v ps = xs @ (k, v) # ys"
    using s by (simp add: with_field_append)
  with s show ?thesis by blast
qed

lemma join_split:
  "join sep (xs @ y # ys) = concat (map (\<lambda>x. x @ sep) xs) @ y @ concat (map (\<lambda>z. sep @ z) ys)"
proof (induction xs)
  case Nil
  show ?case by (induction ys arbitrary: y) auto
next
  case (Cons x xs)
  then show ?case by (cases xs) auto
qed

lemma stringify_object_field:
  "stringify_object (xs @ (k, t) # ys) = stringify_object (xs @ (k, t') # ys) \<longleftrightarrow> t = t'"
  by (simp add: stringify_object_def join_split)

lemma distinct_keys_canon:
  assumes "distinct (map fst ps)"
  shows "distinct (map fst
           (sort_key idx_of (filter (\<lambda>p. is_array_index (fst p)) ps)
            @ sort_key fst (filter (\<lambda>p. \<not> is_array_index (fst p) \<and> fst p \<noteq> ''__proto__'') ps)))"
proof -
  have d: "distinct ps" and i: "inj_on fst (set ps)" using assms by (simp_all add: distinct_map)
  have "distinct (sort_key idx_of (filter (\<lambda>p. is_array_index (fst p)) ps)
            @ sort_key fst (filter (\<lambda>p. \<not> is_array_index (fst p) \<and> fst p \<noteq> ''__proto__'') ps))"
    using d by auto
  moreover have "inj_on fst (set (sort_key idx_of (filter (\<lambda>p. is_array_index (fst p)) ps)
            @ sort_key fst (filter (\<lambda>p. \<not> is_array_index (fst p) \<and> fst p \<noteq> ''__proto__'') ps)))"
    by (rule inj_on_subset[OF i]) auto
  ultimately show ?thesis by (simp only: distinct_map)
qed

text \<open>
  The text of a sorted object changes with the text of each of its fields, the field
  \<open>__proto__\<close> apart.
\<close>

lemma sortObjectKeys_field_text:
  assumes "distinct (map fst ps)" and "map_of ps k = Some u" and "k \<noteq> ''__proto__''"
  shows "JSON_stringify num (sortObjectKeys (JObj (with_field k u' ps)))
           = JSON_stringify num (sortObjectKeys (JObj ps))
         \<longleftrightarrow> JSON_stringify num (sortObjectKeys u') = JSON_stringify num (sortObjectKeys u)"
proof -
  let ?c = "\<lambda>ps. map (\<lambda>(k, v). (k, sortObjectKeys v)) ps"
  let ?R = "\<lambda>ps'. sort_key idx_of (filter (\<lambda>p. is_array_index (fst p)) ps')
            @ sort_key fst (filter (\<lambda>p. \<not> is_array_index (fst p) \<and> fst p \<noteq> ''__proto__'') ps')"
  let ?t = "\<lambda>R. map (\<lambda>(k, v). (k, JSON_stringify num v)) R"
  have f1: "filter (\<lambda>p. is_array_index (fst p)) (?c (with_field k u' ps))
              = with_field k (sortObjectKeys u') (filter (\<lambda>p. is_array_index (fst p)) (?c ps))"
    using with_field_filter[of is_array_index k "sortObjectKeys u'" "?c ps"]
    by (simp only: with_field_map)
  have f2: "filter (\<lambda>p. \<not> is_array_index (fst p) \<and> fst p \<noteq> ''__proto__'') (?c (with_field k u' ps))
              = with_field k (sortObjectKeys u')
                  (filter (\<lambda>p. \<not> is_array_index (fst p) \<and> fst p \<noteq> ''__proto__'') (?c ps))"
    using with_field_filter[of "\<lambda>k. \<not> is_array_index k \<and> k \<noteq> ''__proto__''" k
        "sortObjectKeys u'" "?c ps"]
    by (simp only: with_field_map)
  have R2: "?R (?c (with_field k u' ps)) = with_field k (sortObjectKeys u') (?R (?c ps))"
    unfolding f1 f2 with_field_append
    using with_field_sort_key[of "\<lambda>k. k" k "sortObjectKeys u'"]
      with_field_sort_key[of index_value k "sortObjectKeys u'"]
    by simp
  have dR: "distinct (map fst (?t (?R (?c ps))))"
    using distinct_keys_canon[of "?c ps"] assms(1) by (simp only: fst_map_value map_map)
  have "(k, sortObjectKeys u) \<in> set (?R (?c ps))"
    using assms(2,3) by (force dest: map_of_SomeD)
  then have "(k, JSON_stringify num (sortObjectKeys u)) \<in> set (?t (?R (?c ps)))" by force
  then have m: "map_of (?t (?R (?c ps))) k = Some (JSON_stringify num (sortObjectKeys u))"
    using dR by (simp only: map_of_is_SomeI)
  from with_field_split[OF dR m, of "JSON_stringify num (sortObjectKeys u')"]
  obtain xs ys where
    s: "?t (?R (?c ps)) = xs @ (k, JSON_stringify num (sortObjectKeys u)) # ys"
       "with_field k (JSON_stringify num (sortObjectKeys u')) (?t (?R (?c ps)))
          = xs @ (k, JSON_stringify num (sortObjectKeys u')) # ys"
    by blast
  have t1: "JSON_stringify num (sortObjectKeys (JObj ps)) = stringify_object (?t (?R (?c ps)))"
    using sortObjectKeys_props[OF assms(1)] by simp
  have d2: "distinct (map fst (with_field k u' ps))" using assms(1) by simp
  have "sortObjectKeys (JObj (with_field k u' ps)) = JObj (?R (?c (with_field k u' ps)))"
    by (rule sortObjectKeys_props[OF d2])
  then have "sortObjectKeys (JObj (with_field k u' ps))
               = JObj (with_field k (sortObjectKeys u') (?R (?c ps)))"
    by (simp only: R2)
  then have "JSON_stringify num (sortObjectKeys (JObj (with_field k u' ps)))
               = stringify_object (?t (with_field k (sortObjectKeys u') (?R (?c ps))))"
    by (simp only: JSON_stringify.simps)
  then have t2: "JSON_stringify num (sortObjectKeys (JObj (with_field k u' ps)))
          = stringify_object (with_field k (JSON_stringify num (sortObjectKeys u')) (?t (?R (?c ps))))"
    by (simp only: with_field_map[of "JSON_stringify num"])
  show ?thesis
    by (simp only: t1 t2 s(2)) (simp only: s(1) stringify_object_field)
qed


subsection \<open>UTF-8\<close>

lemma byte_of_nat_inj: "a < 256 \<Longrightarrow> b < 256 \<Longrightarrow> (of_nat a :: byte) = of_nat b \<Longrightarrow> a = b"
proof -
  assume a: "a < 256" and b: "b < 256" and e: "(of_nat a :: byte) = of_nat b"
  from e have "unat (of_nat a :: byte) = unat (of_nat b :: byte)" by simp
  then show "a = b" using a b by (simp add: unat_of_nat)
qed

lemma utf8_char_low:
  "(of_char c :: nat) < 128 \<Longrightarrow> utf8_char c = [of_nat (of_char c)]"
  by (simp only: utf8_char_def Let_def if_True)

lemma utf8_char_high:
  "\<not> (of_char c :: nat) < 128 \<Longrightarrow>
   utf8_char c = [of_nat (192 + of_char c div 64), of_nat (128 + of_char c mod 64)]"
  by (simp only: utf8_char_def Let_def if_False)

lemma utf8_char_prefix:
  assumes "utf8_char c @ r = utf8_char d @ r'"
  shows "c = d \<and> r = r'"
proof -
  let ?n = "of_char c :: nat" and ?m = "of_char d :: nat"
  have n: "?n < 256" and m: "?m < 256" by simp_all
  have b1: "a < 256 \<Longrightarrow> 192 + a div 64 < 256" for a :: nat by arith
  have b2: "128 + a mod 64 < 256" for a :: nat by arith
  have hi: "192 + ?n div 64 < 256" "192 + ?m div 64 < 256" "128 + ?n mod 64 < 256" "128 + ?m mod 64 < 256"
    using n m b1 b2 by blast+
  consider "?n < 128" "?m < 128" | "?n < 128" "\<not> ?m < 128" | "\<not> ?n < 128" "?m < 128"
    | "\<not> ?n < 128" "\<not> ?m < 128" by blast
  then show ?thesis
  proof cases
    case 1
    from assms have e: "(of_nat ?n :: byte) = of_nat ?m \<and> r = r'"
      by (simp only: utf8_char_low[OF 1(1)] utf8_char_low[OF 1(2)] append_Cons append_Nil list.inject)
    have "?n = ?m" using n m e by (intro byte_of_nat_inj) simp_all
    then show ?thesis using e by simp
  next
    case 2
    from assms have "(of_nat ?n :: byte) = of_nat (192 + ?m div 64)"
      by (simp only: utf8_char_low[OF 2(1)] utf8_char_high[OF 2(2)] append_Cons append_Nil list.inject)
    then have "?n = 192 + ?m div 64" using n hi(2) by (intro byte_of_nat_inj)
    then show ?thesis using 2 by simp
  next
    case 3
    from assms have "(of_nat (192 + ?n div 64) :: byte) = of_nat ?m"
      by (simp only: utf8_char_low[OF 3(2)] utf8_char_high[OF 3(1)] append_Cons append_Nil list.inject)
    then have "192 + ?n div 64 = ?m" using m hi(1) by (intro byte_of_nat_inj)
    then show ?thesis using 3 by simp
  next
    case 4
    from assms have e: "(of_nat (192 + ?n div 64) :: byte) = of_nat (192 + ?m div 64)
        \<and> (of_nat (128 + ?n mod 64) :: byte) = of_nat (128 + ?m mod 64) \<and> r = r'"
      by (simp only: utf8_char_high[OF 4(1)] utf8_char_high[OF 4(2)] append_Cons append_Nil list.inject)
    have "192 + ?n div 64 = 192 + ?m div 64" using e hi(1,2) by (intro byte_of_nat_inj) simp_all
    moreover have "128 + ?n mod 64 = 128 + ?m mod 64" using e hi(3,4) by (intro byte_of_nat_inj) simp_all
    ultimately have "?n = ?m" by (metis add_left_cancel div_mult_mod_eq)
    then show ?thesis using e by simp
  qed
qed

lemma utf8_char_not_Nil: "utf8_char c \<noteq> []"
  by (simp add: utf8_char_def Let_def)

lemma utf8_encode_inj: "utf8_encode s = utf8_encode t \<Longrightarrow> s = t"
proof (induction s arbitrary: t)
  case Nil
  then show ?case by (cases t) (auto simp: utf8_encode_def utf8_char_not_Nil)
next
  case (Cons c s)
  show ?case
  proof (cases t)
    case Nil
    then show ?thesis using Cons.prems by (auto simp: utf8_encode_def utf8_char_not_Nil)
  next
    case (Cons d t')
    then have "utf8_char c @ utf8_encode s = utf8_char d @ utf8_encode t'"
      using Cons.prems by (simp add: utf8_encode_def)
    then have "c = d \<and> utf8_encode s = utf8_encode t'" by (rule utf8_char_prefix)
    then show ?thesis using Cons.IH Cons by simp
  qed
qed

lemma inj_example_hash: "inj example_hash"
proof (rule injI)
  fix x y :: "byte list"
  assume "example_hash x = example_hash y"
  then have "map (\<lambda>b. char_of (unat b)) x = map (\<lambda>b. char_of (unat b)) y"
    by (simp add: example_hash_def)
  moreover have "inj (\<lambda>b :: byte. char_of (unat b) :: char)"
  proof (rule injI)
    fix a b :: byte
    assume "(char_of (unat a) :: char) = char_of (unat b)"
    then have "unat a mod 256 = unat b mod 256" by simp
    moreover have "unat a < 256" "unat b < 256" using unsigned_less[of a] unsigned_less[of b] by simp_all
    ultimately have "unat a = unat b" by simp
    then show "a = b" by (rule word_unat_eq_iff[THEN iffD2])
  qed
  ultimately show "x = y" by (simp add: inj_map_eq_map)
qed

subsection \<open>Exclusion at the top level only\<close>

lemma canonical_text_field:
  assumes "distinct (map fst ps)" and "map_of ps k = Some u" and "k \<noteq> ''__proto__''"
    and "k \<notin> set (dynamicFields E)"
  shows "canonical_text num (JObj (with_field k u' ps)) E = canonical_text num (JObj ps) E
         \<longleftrightarrow> JSON_stringify num (sortObjectKeys u') = JSON_stringify num (sortObjectKeys u)"
proof -
  let ?P = "\<lambda>k. k \<notin> set (dynamicFields E)"
  have d: "distinct (map fst (filter (\<lambda>p. ?P (fst p)) ps))" using assms(1) by (rule distinct_map_filter)
  have m: "map_of (filter (\<lambda>p. ?P (fst p)) ps) k = Some u"
    using assms(2,4) by (simp add: map_of_key_filter[of ?P])
  show ?thesis
    using sortObjectKeys_field_text[OF d m assms(3), of num u']
    by (simp add: canonical_text_def filtered_filter with_field_filter[of ?P])
qed

lemma map_of_filtered:
  "k \<notin> set (dynamicFields E) \<Longrightarrow> map_of (filtered (JObj ps) E) k = map_of ps k"
  by (simp add: filtered_filter map_of_key_filter[of "\<lambda>k. k \<notin> set (dynamicFields E)"])

lemma keys_filtered:
  "map fst (filtered (JObj ps) E) = filter (\<lambda>k. k \<notin> set (dynamicFields E)) (map fst ps)"
  by (simp add: filtered_filter map_fst_filter[of "\<lambda>k. k \<notin> set (dynamicFields E)"])

lemma map_of_filtered_excluded:
  "k \<in> set (dynamicFields E) \<Longrightarrow> map_of (filtered (JObj ps) E) k = None"
  by (simp add: filtered_filter map_of_key_filter[of "\<lambda>k. k \<notin> set (dynamicFields E)"])

text \<open>
  The scope of the exclusion. \<open>hashObject\<close> deletes \<open>id\<close>, \<open>date\<close>, \<open>modified\<close>, \<open>guid\<close>,
  \<open>link\<close> and the caller's \<open>excludeKeys\<close> from the top level of the object only: two
  objects whose other top-level properties are the same have the same hash; the filtered
  copy has none of those keys, and keeps every other top-level property with its value as
  it is. For a nested object under a kept key other than \<open>__proto__\<close>, a new \<open>id\<close> with
  another text changes the string that is hashed, and the hash of every hash function
  without collisions.
\<close>

lemma hashObject_exclusion_scope:
  "(filter (\<lambda>p. fst p \<notin> set (dynamicFields excludeKeys)) ps
      = filter (\<lambda>p. fst p \<notin> set (dynamicFields excludeKeys)) qs
    \<longrightarrow> hashObject H num (JObj ps) excludeKeys = hashObject H num (JObj qs) excludeKeys)
   \<and> (k \<in> set (dynamicFields excludeKeys) \<longrightarrow> map_of (filtered (JObj ps) excludeKeys) k = None)
   \<and> (k \<notin> set (dynamicFields excludeKeys)
        \<longrightarrow> map_of (filtered (JObj ps) excludeKeys) k = map_of ps k)
   \<and> (distinct (map fst ps) \<and> map_of ps k = Some (JObj inner)
      \<and> k \<notin> set (dynamicFields excludeKeys) \<and> k \<noteq> ''__proto__''
      \<and> distinct (map fst inner) \<and> map_of inner ''id'' = Some x
      \<and> JSON_stringify num (sortObjectKeys y) \<noteq> JSON_stringify num (sortObjectKeys x)
      \<and> inj H
    \<longrightarrow> hashObject H num (JObj (with_field k (JObj (with_field ''id'' y inner)) ps)) excludeKeys
          \<noteq> hashObject H num (JObj ps) excludeKeys)"
proof (intro conjI impI)
  assume "filter (\<lambda>p. fst p \<notin> set (dynamicFields excludeKeys)) ps
      = filter (\<lambda>p. fst p \<notin> set (dynamicFields excludeKeys)) qs"
  then show "hashObject H num (JObj ps) excludeKeys = hashObject H num (JObj qs) excludeKeys"
    by (simp add: hashObject_def canonical_text_def filtered_filter)
next
  assume "k \<in> set (dynamicFields excludeKeys)"
  then show "map_of (filtered (JObj ps) excludeKeys) k = None"
    by (rule map_of_filtered_excluded)
next
  assume "k \<notin> set (dynamicFields excludeKeys)"
  then show "map_of (filtered (JObj ps) excludeKeys) k = map_of ps k"
    by (rule map_of_filtered)
next
  assume h: "distinct (map fst ps) \<and> map_of ps k = Some (JObj inner)
      \<and> k \<notin> set (dynamicFields excludeKeys) \<and> k \<noteq> ''__proto__''
      \<and> distinct (map fst inner) \<and> map_of inner ''id'' = Some x
      \<and> JSON_stringify num (sortObjectKeys y) \<noteq> JSON_stringify num (sortObjectKeys x)
      \<and> inj H"
  have "JSON_stringify num (sortObjectKeys (JObj (with_field ''id'' y inner)))
          \<noteq> JSON_stringify num (sortObjectKeys (JObj inner))"
    using h sortObjectKeys_field_text[of inner "''id''" x num y] by simp
  then have "canonical_text num (JObj (with_field k (JObj (with_field ''id'' y inner)) ps)) excludeKeys
               \<noteq> canonical_text num (JObj ps) excludeKeys"
    using h canonical_text_field[of ps k "JObj inner" excludeKeys num "JObj (with_field ''id'' y inner)"]
    by simp
  then have "utf8_encode (canonical_text num (JObj (with_field k (JObj (with_field ''id'' y inner)) ps)) excludeKeys)
               \<noteq> utf8_encode (canonical_text num (JObj ps) excludeKeys)"
    using utf8_encode_inj by blast
  then show "hashObject H num (JObj (with_field k (JObj (with_field ''id'' y inner)) ps)) excludeKeys
          \<noteq> hashObject H num (JObj ps) excludeKeys"
    using h by (simp add: hashObject_def hashString_def inj_eq)
qed

lemma hashObject_exclusion_scope_example:
  "(\<forall>H. hashObject H dec (JObj example_post_a) [] = hashObject H dec (JObj example_post_b) [])
   \<and> map_of (filtered (JObj example_nested) []) ''id'' = None
   \<and> map_of (filtered (JObj example_nested) []) ''author'' = Some (JObj example_author)
   \<and> map_of example_author ''id'' = Some (JNum 5)
   \<and> with_field ''author'' (JObj (with_field ''id'' (JNum 6) example_author)) example_nested
       = [(''id'', JNum 1), (''title'', JStr ''t''),
          (''author'', JObj [(''id'', JNum 6), (''name'', JStr ''n'')])]
   \<and> hashObject example_hash dec
         (JObj (with_field ''author'' (JObj (with_field ''id'' (JNum 6) example_author)) example_nested)) []
       \<noteq> hashObject example_hash dec (JObj example_nested) []"
proof -
  have f: "filter (\<lambda>p. fst p \<notin> set (dynamicFields [])) example_post_a
             = filter (\<lambda>p. fst p \<notin> set (dynamicFields [])) example_post_b"
    by (simp add: example_post_a_def example_post_b_def dynamicFields_def)
  have a: "hashObject H dec (JObj example_post_a) [] = hashObject H dec (JObj example_post_b) []" for H
    using f hashObject_exclusion_scope[where excludeKeys = "[]" and ps = example_post_a
        and qs = example_post_b and H = H and num = dec]
    by blast
  have h1: "distinct (map fst example_nested)"
    and h2: "map_of example_nested ''author'' = Some (JObj example_author)"
    and h3: "''author'' \<notin> set (dynamicFields [])"
    and h4: "distinct (map fst example_author)"
    and h5: "map_of example_author ''id'' = Some (JNum 5)"
    and h8: "''id'' \<in> set (dynamicFields [])"
    by (simp_all add: example_nested_def example_author_def dynamicFields_def)
  have h6: "JSON_stringify dec (sortObjectKeys (JNum 6)) \<noteq> JSON_stringify dec (sortObjectKeys (JNum 5))"
    by (simp add: dec.simps digit_char_def)
  have h7: "''author'' \<noteq> ''__proto__''" by simp
  have i: "map_of (filtered (JObj example_nested) []) ''id'' = None"
    using h8 hashObject_exclusion_scope[where excludeKeys = "[]" and ps = example_nested
        and k = "''id''"]
    by blast
  have n: "map_of (filtered (JObj example_nested) []) ''author'' = Some (JObj example_author)"
    using h2 h3 hashObject_exclusion_scope[where excludeKeys = "[]" and ps = example_nested
        and k = "''author''"]
    by simp
  have b: "hashObject example_hash dec
         (JObj (with_field ''author'' (JObj (with_field ''id'' (JNum 6) example_author)) example_nested)) []
       \<noteq> hashObject example_hash dec (JObj example_nested) []"
    using h1 h2 h3 h4 h5 h6 h7 inj_example_hash
      hashObject_exclusion_scope[where excludeKeys = "[]" and ps = example_nested
        and k = "''author''" and inner = example_author and x = "JNum 5" and y = "JNum 6"
        and H = example_hash and num = dec]
    by blast
  have w: "with_field ''author'' (JObj (with_field ''id'' (JNum 6) example_author)) example_nested
       = [(''id'', JNum 1), (''title'', JStr ''t''),
          (''author'', JObj [(''id'', JNum 6), (''name'', JStr ''n'')])]"
    by (simp add: example_nested_def example_author_def)
  from a i n h5 w b show ?thesis by blast
qed

text \<open>
  What the assignment \<open>sorted['__proto__'] = value\<close> does to the hashed string: the
  property is absent from it, with everything it holds.
\<close>

lemma proto_member_not_hashed:
  "canonical_text num (JObj ((''__proto__'', v) # ps)) excludeKeys
     = canonical_text num (JObj ps) excludeKeys"
  if "distinct (map fst ((''__proto__'', v) # ps))"
proof -
  let ?P = "\<lambda>p :: string \<times> 'a json. fst p \<notin> set (dynamicFields excludeKeys)"
  have d: "distinct (map fst (filter ?P ps))"
    using that distinct_map_filter[of fst ps ?P] by simp
  have "sortObjectKeys (JObj ((''__proto__'', v) # filter ?P ps)) = sortObjectKeys (JObj (filter ?P ps))"
  proof -
    have d': "distinct (map fst ((''__proto__'', v) # filter ?P ps))"
      using that d by (auto simp: distinct_map_filter)
    show ?thesis
      by (simp only: sortObjectKeys_props[OF d'] sortObjectKeys_props[OF d])
        (simp add: proto_not_index)
  qed
  then show ?thesis by (simp add: canonical_text_def filtered_filter)
qed

text \<open>
  Claim C2. \<open>hashObject\<close> removes \<open>id\<close>, \<open>date\<close>, \<open>modified\<close>, \<open>guid\<close>, \<open>link\<close> and the
  \<open>excludeKeys\<close> from the top level only, and an \<open>id\<close> inside a nested object is to
  change the hash when it changes. The code misses one case: for the document
  \<open>{"__proto__": {"id": x}, "t": "x"}\<close>, which \<open>JSON.parse\<close> returns with an own property
  \<open>__proto__\<close>, the loop of \<open>sortObjectKeys\<close> assigns \<open>sorted['__proto__']\<close> and so writes
  no property; the string that is hashed is \<open>{"t":"x"}\<close> whatever the nested \<open>id\<close> is,
  and the hash is the same for every value of it and every hash function.
\<close>

theorem hashObject_nested_id_under_proto:
  "hashObject H num (JObj [(''__proto__'', JObj [(''id'', x)]), (''t'', JStr ''x'')]) []
     = hashObject H num (JObj [(''__proto__'', JObj [(''id'', y)]), (''t'', JStr ''x'')]) []
   \<and> canonical_text num (JObj [(''__proto__'', JObj [(''id'', x)]), (''t'', JStr ''x'')]) []
     = ''{'' @ quote ''t'' @ '':'' @ quote ''x'' @ ''}''"
proof -
  have t: "canonical_text num (JObj [(''__proto__'', JObj [(''id'', v)]), (''t'', JStr ''x'')]) []
             = ''{'' @ quote ''t'' @ '':'' @ quote ''x'' @ ''}''" for v :: "'a json"
    by (simp add: canonical_text_def filtered_def dynamicFields_def js_delete_def js_set_def
        is_array_index_def is_digit_def stringify_object_def)
  show ?thesis by (simp only: hashObject_def t)
qed

subsection \<open>The order of the keys in the hashed string\<close>

text \<open>
  Claim C3, as amended. In the string that \<open>hashObject\<close> hashes, every object, at the top
  level and nested, lists its keys with the array indices (the canonical decimal texts of
  the integers up to \<open>2^32 - 2\<close>, such as \<open>2\<close> and \<open>10\<close>) first, in ascending numeric order,
  and the other keys after them in ascending order of code units; with no array index
  among the keys this is the sorted order. Each key is followed by the text of its sorted
  value, an array keeps the order of its elements, and strings, numbers, booleans and
  \<open>null\<close> are unchanged. (An object with a key \<open>__proto__\<close> is left out.)
\<close>

theorem sortObjectKeys_key_order:
  assumes "distinct (map fst ps)" and "''__proto__'' \<notin> fst ` set ps"
  shows "sortObjectKeys (JObj ps)
           = JObj (map (\<lambda>k. (k, sortObjectKeys (the (map_of ps k)))) (key_order (map fst ps)))
       \<and> JSON_stringify num (sortObjectKeys (JObj ps))
           = ''{'' @ join '','' (map (\<lambda>k. quote k @ '':'' @ JSON_stringify num (sortObjectKeys (the (map_of ps k))))
                                  (key_order (map fst ps))) @ ''}''
       \<and> canonical_text num (JObj ps) excludeKeys
           = ''{'' @ join '','' (map (\<lambda>k. quote k @ '':'' @ JSON_stringify num (sortObjectKeys (the (map_of ps k))))
                                  (key_order (filter (\<lambda>k. k \<notin> set (dynamicFields excludeKeys)) (map fst ps)))) @ ''}''
       \<and> ((\<forall>k\<in>fst ` set ps. \<not> is_array_index k) \<longrightarrow> key_order (map fst ps) = sort (map fst ps))
       \<and> JSON_stringify num (sortObjectKeys (JArr xs))
           = ''['' @ join '','' (map (\<lambda>x. JSON_stringify num (sortObjectKeys x)) xs) @ '']''
       \<and> sortObjectKeys JNull = JNull \<and> sortObjectKeys (JBool b) = JBool b
       \<and> sortObjectKeys (JNum n) = JNum n \<and> sortObjectKeys (JStr s) = JStr s"
proof -
  have text_of: "JSON_stringify num (sortObjectKeys (JObj qs))
           = ''{'' @ join '','' (map (\<lambda>k. quote k @ '':'' @ JSON_stringify num (sortObjectKeys (the (map_of qs k))))
                                  (key_order (map fst qs))) @ ''}''"
    if "distinct (map fst qs)" and "''__proto__'' \<notin> fst ` set qs" for qs :: "'a json props"
    using sortObjectKeys_keys[OF that]
    by (simp add: stringify_object_def comp_def)
  have d: "distinct (map fst (filtered (JObj ps) excludeKeys))"
    using assms(1) by (simp add: filtered_filter distinct_map_filter)
  have p: "''__proto__'' \<notin> fst ` set (filtered (JObj ps) excludeKeys)"
    using assms(2) by (auto simp: filtered_filter)
  have "map (\<lambda>k. quote k @ '':'' @ JSON_stringify num (sortObjectKeys (the (map_of (filtered (JObj ps) excludeKeys) k))))
          (key_order (map fst (filtered (JObj ps) excludeKeys)))
      = map (\<lambda>k. quote k @ '':'' @ JSON_stringify num (sortObjectKeys (the (map_of ps k))))
          (key_order (map fst (filtered (JObj ps) excludeKeys)))"
    by (rule map_cong[OF refl]) (auto simp: key_order_def keys_filtered map_of_filtered)
  then have top: "canonical_text num (JObj ps) excludeKeys
           = ''{'' @ join '','' (map (\<lambda>k. quote k @ '':'' @ JSON_stringify num (sortObjectKeys (the (map_of ps k))))
                                  (key_order (filter (\<lambda>k. k \<notin> set (dynamicFields excludeKeys)) (map fst ps)))) @ ''}''"
    using text_of[OF d p] by (simp only: canonical_text_def keys_filtered)
  have arr: "JSON_stringify num (sortObjectKeys (JArr xs))
           = ''['' @ join '','' (map (\<lambda>x. JSON_stringify num (sortObjectKeys x)) xs) @ '']''"
    by (simp add: stringify_array_def comp_def)
  have no_idx: "(\<forall>k\<in>fst ` set ps. \<not> is_array_index k) \<longrightarrow> key_order (map fst ps) = sort (map fst ps)"
    using key_order_no_index[of "map fst ps"] by simp
  show ?thesis
    using sortObjectKeys_keys[OF assms] text_of[OF assms] top arr no_idx by simp
qed

lemmas text_eval = canonical_text_def filtered_def dynamicFields_def js_delete_def js_set_def
  is_array_index_def index_value_def digit_val_def is_digit_def dec.simps digit_char_def
  stringify_object_def stringify_array_def quote_def quote_char_def

text \<open>
  The keys \<open>10\<close> and \<open>2\<close> are sorted as \<open>10\<close>, \<open>2\<close> and serialized as \<open>2\<close>, \<open>10\<close>.
\<close>

theorem sortObjectKeys_sorted_order_counterexample:
  "canonical_text dec (JObj [(''10'', JStr ''a''), (''2'', JStr ''b'')]) []
     = ''{'' @ quote ''2'' @ '':'' @ quote ''b'' @ '','' @ quote ''10'' @ '':'' @ quote ''a'' @ ''}''
   \<and> canonical_text dec (JObj [(''10'', JStr ''a''), (''2'', JStr ''b'')]) []
     \<noteq> ''{'' @ quote ''10'' @ '':'' @ quote ''a'' @ '','' @ quote ''2'' @ '':'' @ quote ''b'' @ ''}''
   \<and> sort [''10'', ''2''] = [''10'', ''2'']"
  by (simp add: text_eval)

theorem sortObjectKeys_key_order_witness:
  "distinct (map fst [(''b'', JNum 1), (''10'', JNum 1), (''a'', JArr [JStr ''x'', JNull]),
           (''2'', JObj [(''z'', JBool True), (''5'', JBool False)])])
   \<and> key_order [''b'', ''10'', ''a'', ''2''] = [''2'', ''10'', ''a'', ''b'']
   \<and> JSON_stringify dec (sortObjectKeys example_keys)
       = ''{'' @ quote ''2'' @ '':{'' @ quote ''5'' @ '':false,'' @ quote ''z'' @ '':true},''
           @ quote ''10'' @ '':1,'' @ quote ''a'' @ '':['' @ quote ''x'' @ '',null],'' @ quote ''b'' @ '':1}''"
proof -
  let ?ps = "[(''b'', JNum 1), (''10'', JNum 1), (''a'', JArr [JStr ''x'', JNull]),
           (''2'', JObj [(''z'', JBool True), (''5'', JBool False)])] :: nat json props"
  have d: "distinct (map fst ?ps)" by simp
  have p: "''__proto__'' \<notin> fst ` set ?ps" by simp
  have k: "key_order [''b'', ''10'', ''a'', ''2''] = [''2'', ''10'', ''a'', ''b'']"
    by (simp add: key_order_def text_eval)
  from sortObjectKeys_key_order[OF d p, of dec "[]" "[]" False 0 "[]"]
  have "JSON_stringify dec (sortObjectKeys (JObj ?ps))
       = ''{'' @ quote ''2'' @ '':{'' @ quote ''5'' @ '':false,'' @ quote ''z'' @ '':true},''
           @ quote ''10'' @ '':1,'' @ quote ''a'' @ '':['' @ quote ''x'' @ '',null],'' @ quote ''b'' @ '':1}''"
    by (simp add: k text_eval)
  with d k show ?thesis by (simp add: example_keys_def)
qed

section \<open>Properties of the hashing functions\<close>

lemmas fs_eval =
  readFile_def pathExists_def readdir_def stat_isFile_def readJson_def hashFile_def

text \<open>
  Claim C9. \<open>hashString\<close> of a string is the hash of the bytes of its UTF-8 encoding, and
  \<open>hashFile\<close> is the hash of the bytes of the file: on a file whose bytes are the UTF-8
  encoding of the string, the two return the same hash.
\<close>

theorem hashString_hashFile_agree:
  "hashString H t = digestOfBytes H (utf8_encode t)
   \<and> (readFile fs filePath = Inr bytes \<longrightarrow> hashFile H fs filePath = Inr (digestOfBytes H bytes))
   \<and> (readFile fs filePath = Inr (utf8_encode t) \<longrightarrow> hashFile H fs filePath = Inr (hashString H t))"
  by (simp add: hashString_def hashFile_def digestOfBytes_def)

theorem hashString_hashFile_agree_witness:
  "\<forall>H. readFile (Dir [(''body.html'', File [0x3C, 0x70, 0x3E, 0xC3, 0xA9])]) [''body.html'']
          = Inr (utf8_encode [CHR ''<'', CHR ''p'', CHR ''>'', CHR 0xE9])
     \<and> hashFile H (Dir [(''body.html'', File [0x3C, 0x70, 0x3E, 0xC3, 0xA9])]) [''body.html'']
          = Inr (hashString H [CHR ''<'', CHR ''p'', CHR ''>'', CHR 0xE9])"
proof
  fix H :: sha256
  have r: "readFile (Dir [(''body.html'', File [0x3C, 0x70, 0x3E, 0xC3, 0xA9])]) [''body.html'']
             = Inr (utf8_encode [CHR ''<'', CHR ''p'', CHR ''>'', CHR 0xE9])"
    by (simp add: readFile_def utf8_encode_def utf8_char_def)
  show "readFile (Dir [(''body.html'', File [0x3C, 0x70, 0x3E, 0xC3, 0xA9])]) [''body.html'']
          = Inr (utf8_encode [CHR ''<'', CHR ''p'', CHR ''>'', CHR 0xE9])
     \<and> hashFile H (Dir [(''body.html'', File [0x3C, 0x70, 0x3E, 0xC3, 0xA9])]) [''body.html'']
          = Inr (hashString H [CHR ''<'', CHR ''p'', CHR ''>'', CHR 0xE9])"
    using r hashString_hashFile_agree[of H "[CHR ''<'', CHR ''p'', CHR ''>'', CHR 0xE9]"
        "Dir [(''body.html'', File [0x3C, 0x70, 0x3E, 0xC3, 0xA9])]" "[''body.html'']"]
    by simp
qed

text \<open>
  Claim C4. Whenever \<open>generateChecksums\<close> returns checksums, their \<open>files\<close> object is
  present and \<open>combined\<close> is \<open>hashString\<close> of \<open>JSON.stringify(files)\<close> followed by
  \<open>JSON.stringify(media || {})\<close>, taken on the \<open>files\<close> and \<open>media\<close> that are returned;
  \<open>JSON.stringify\<close> does not reorder the keys, and the empty object is \<open>{}\<close>.
\<close>

theorem generateChecksums_combined:
  assumes "generateChecksums H num parse now fs contentDir = Inr cs"
  shows "files cs \<noteq> None
       \<and> combined cs = hashString H (JSON_stringify num (hashes_value (or_empty (files cs)))
                                     @ JSON_stringify num (hashes_value (or_empty (media cs))))
       \<and> JSON_stringify num (hashes_value (or_empty None)) = ''{}''"
  using assms
  by (auto simp: generateChecksums_def or_empty_def hashes_value_def stringify_object_def
      split: sum.splits)

lemmas key_eval =
  js_set_def js_delete_def is_array_index_def index_value_def digit_val_def is_digit_def

theorem generateChecksums_combined_witness:
  "\<forall>H. generateChecksums H dec example_parse ''2024-01-01T00:00:00.000Z'' example_bundle []
          = Inr (example_checksums H)
     \<and> files (example_checksums H) \<noteq> None
     \<and> combined (example_checksums H) =
         hashString H (JSON_stringify dec (hashes_value (or_empty (files (example_checksums H))))
                       @ JSON_stringify dec (hashes_value (or_empty (media (example_checksums H)))))"
proof
  fix H :: sha256
  have e: "generateChecksums H dec example_parse ''2024-01-01T00:00:00.000Z'' example_bundle []
             = Inr (example_checksums H)"
    by (simp add: generateChecksums_def hashBody_def hashMetadata_def hashMedia_def
        example_bundle_def example_parse_def example_checksums_def fs_eval endsWith_def key_eval
        hashObject_def canonical_text_def filtered_def dynamicFields_def or_empty_def)
  from e generateChecksums_combined[OF e]
  show "generateChecksums H dec example_parse ''2024-01-01T00:00:00.000Z'' example_bundle []
          = Inr (example_checksums H)
     \<and> files (example_checksums H) \<noteq> None
     \<and> combined (example_checksums H) =
         hashString H (JSON_stringify dec (hashes_value (or_empty (files (example_checksums H))))
                       @ JSON_stringify dec (hashes_value (or_empty (media (example_checksums H)))))"
    by simp
qed

section \<open>Properties of \<open>compareChecksums\<close>\<close>

subsection \<open>The two loops as filters\<close>

lemma changedEntries_foldl:
  "foldl (\<lambda>acc (file, hash). if js_get r file \<noteq> Str hash then acc @ [file] else acc) acc e
     = acc @ map fst (filter (\<lambda>(file, hash). js_get r file \<noteq> Str hash) e)"
  by (induction e arbitrary: acc) (auto split: prod.splits)

lemma changedEntries_filter:
  "changedEntries e r = map fst (filter (\<lambda>(file, hash). js_get r file \<noteq> Str hash) e)"
  unfolding changedEntries_def by (simp add: changedEntries_foldl)

lemma set_changedEntries: "set (changedEntries e r) \<subseteq> fst ` set e"
  by (auto simp: changedEntries_filter)

lemma distinct_changedEntries: "distinct (map fst e) \<Longrightarrow> distinct (changedEntries e r)"
  by (simp add: changedEntries_filter distinct_map_filter)

lemma newMedia_foldl_set:
  "set (foldl (\<lambda>acc file. if falsy (js_get r file)
                            then (if file \<notin> set acc then acc @ [file] else acc) else acc) acc ks)
     \<subseteq> set acc \<union> set ks"
proof (induction ks arbitrary: acc)
  case Nil
  then show ?case by simp
next
  case (Cons k ks)
  show ?case using Cons[of "acc @ [k]"] Cons[of acc] by auto
qed

lemma newMedia_foldl_keeps:
  "set acc \<subseteq> set (foldl (\<lambda>acc file. if falsy (js_get r file)
                            then (if file \<notin> set acc then acc @ [file] else acc) else acc) acc ks)"
proof (induction ks arbitrary: acc)
  case Nil
  then show ?case by simp
next
  case (Cons k ks)
  show ?case using Cons[of "acc @ [k]"] Cons[of acc] by auto
qed

lemma newMedia_foldl_distinct:
  "distinct acc \<Longrightarrow>
   distinct (foldl (\<lambda>acc file. if falsy (js_get r file)
                     then (if file \<notin> set acc then acc @ [file] else acc) else acc) acc ks)"
  by (induction ks arbitrary: acc) auto

lemma newMedia_foldl_none:
  "\<forall>k\<in>set ks. \<not> falsy (js_get r k) \<Longrightarrow>
   foldl (\<lambda>acc file. if falsy (js_get r file)
           then (if file \<notin> set acc then acc @ [file] else acc) else acc) acc ks = acc"
  by (induction ks arbitrary: acc) auto

lemma set_newMedia: "set (newMedia e r c) \<subseteq> set c \<union> fst ` set e"
  unfolding newMedia_def using newMedia_foldl_set[of r c "map fst e"] by auto

lemma newMedia_keeps: "set c \<subseteq> set (newMedia e r c)"
  unfolding newMedia_def by (rule newMedia_foldl_keeps)

lemma distinct_newMedia: "distinct c \<Longrightarrow> distinct (newMedia e r c)"
  unfolding newMedia_def by (rule newMedia_foldl_distinct)

lemma js_get_own: "map_of r k = Some h \<Longrightarrow> js_get r k = Str h"
  by (simp add: js_get_def)

text \<open>A key the stored object does not own never reads as a string.\<close>

lemma js_get_absent: "k \<notin> fst ` set r \<Longrightarrow> js_get r k \<noteq> Str h"
  by (auto simp: js_get_def map_of_eq_None_iff[symmetric] split: option.splits)

lemma changedEntries_all_match:
  assumes "\<forall>(file, hash)\<in>set e. map_of r file = Some hash"
  shows "changedEntries e r = []"
  using assms by (auto simp: changedEntries_filter filter_empty_conv js_get_own)

lemma newMedia_all_match:
  assumes "\<forall>(file, hash)\<in>set e. map_of r file = Some hash \<and> hash \<noteq> []"
  shows "newMedia e r [] = []"
proof -
  have "\<forall>k\<in>set (map fst e). \<not> falsy (js_get r k)"
    using assms by (fastforce simp: falsy_def js_get_own)
  then show ?thesis unfolding newMedia_def by (rule newMedia_foldl_none)
qed

lemma count_list_distinct: "distinct xs \<Longrightarrow> x \<in> set xs \<Longrightarrow> count_list xs x = 1"
  by (induction xs) auto

lemmas compare_eval =
  compareChecksums_def changedEntries_def newMedia_def js_get_def falsy_def or_empty_def
  object_prototype_keys_def Let_def

subsection \<open>The claims\<close>

text \<open>
  Claim C5. When the combined hash of the exported checksums equals the combined hash of
  the remote ones, \<open>compareChecksums\<close> returns exactly
  \<open>{changed: false, reason: 'combined-match', details: {files: [], media: []}}\<close>, whatever
  the \<open>files\<close> and \<open>media\<close> objects hold and in whatever order: no entry is compared.
\<close>

theorem compareChecksums_combined_match:
  assumes "combined exportChecksums = combined remote"
  shows "compareChecksums exportChecksums (Some remote) =
           \<lparr> changed = False, reason = ''combined-match'',
             details = \<lparr> details_files = [], details_media = [] \<rparr> \<rparr>"
  using assms by (simp add: compareChecksums_def)

theorem compareChecksums_combined_match_witness:
  "combined (example_fresh\<lparr>combined := ''gg''\<rparr>) = combined example_stored
   \<and> files (example_fresh\<lparr>combined := ''gg''\<rparr>) \<noteq> files example_stored
   \<and> compareChecksums (example_fresh\<lparr>combined := ''gg''\<rparr>) (Some example_stored) =
           \<lparr> changed = False, reason = ''combined-match'',
             details = \<lparr> details_files = [], details_media = [] \<rparr> \<rparr>"
proof -
  have c: "combined (example_fresh\<lparr>combined := ''gg''\<rparr>) = combined example_stored"
    by (simp add: example_fresh_def example_stored_def)
  have "files (example_fresh\<lparr>combined := ''gg''\<rparr>) \<noteq> files example_stored"
    by (simp add: example_fresh_def example_stored_def)
  with c compareChecksums_combined_match[OF c] show ?thesis by simp
qed

text \<open>
  Claim C6, as amended. With no remote checksums, \<open>compareChecksums\<close> returns exactly
  \<open>{changed: true, reason: 'no-remote-checksums', details: {files: [], media: []}}\<close>,
  before anything of the exported checksums is read. The reason is the string
  \<open>no-remote-checksums\<close>; the claim's \<open>no-remote-digest\<close> is not what is returned.
\<close>

theorem compareChecksums_no_remote:
  "compareChecksums exportChecksums None =
     \<lparr> changed = True, reason = ''no-remote-checksums'',
       details = \<lparr> details_files = [], details_media = [] \<rparr> \<rparr>"
  by (simp add: compareChecksums_def)

theorem compareChecksums_no_remote_digest_counterexample:
  "compareChecksums example_fresh None \<noteq>
     \<lparr> changed = True, reason = ''no-remote-digest'',
       details = \<lparr> details_files = [], details_media = [] \<rparr> \<rparr>"
  by (simp add: compareChecksums_def)

text \<open>
  Claim C7. Every name in \<open>details.files\<close> is a key of the exported \<open>files\<close> and every
  name in \<open>details.media\<close> a key of the exported \<open>media\<close>, so a name that only the
  remote checksums hold is never reported. When the combined hashes differ and every
  exported entry has the same hash in the remote checksums (the hashes of the media being
  hashes, hence not the empty string), the result is
  \<open>{changed: false, reason: 'match', details: {files: [], media: []}}\<close>.
\<close>

theorem compareChecksums_one_directional:
  "set (details_files (details (compareChecksums fresh (Some stored))))
     \<subseteq> fst ` set (or_empty (files fresh))
   \<and> set (details_media (details (compareChecksums fresh (Some stored))))
     \<subseteq> fst ` set (or_empty (media fresh))
   \<and> (combined fresh \<noteq> combined stored
        \<and> (\<forall>(file, hash)\<in>set (or_empty (files fresh)).
              map_of (or_empty (files stored)) file = Some hash)
        \<and> (\<forall>(file, hash)\<in>set (or_empty (media fresh)).
              map_of (or_empty (media stored)) file = Some hash \<and> hash \<noteq> [])
      \<longrightarrow> compareChecksums fresh (Some stored) =
            \<lparr> changed = False, reason = ''match'',
              details = \<lparr> details_files = [], details_media = [] \<rparr> \<rparr>)"
proof (intro conjI impI)
  show "set (details_files (details (compareChecksums fresh (Some stored))))
          \<subseteq> fst ` set (or_empty (files fresh))"
    using set_changedEntries[of "or_empty (files fresh)" "or_empty (files stored)"]
    by (simp add: compareChecksums_def Let_def)
next
  show "set (details_media (details (compareChecksums fresh (Some stored))))
          \<subseteq> fst ` set (or_empty (media fresh))"
    using set_newMedia[of "or_empty (media fresh)" "or_empty (media stored)"
            "changedEntries (or_empty (media fresh)) (or_empty (media stored))"]
      set_changedEntries[of "or_empty (media fresh)" "or_empty (media stored)"]
    by (auto simp: compareChecksums_def Let_def)
next
  assume h: "combined fresh \<noteq> combined stored
        \<and> (\<forall>(file, hash)\<in>set (or_empty (files fresh)).
              map_of (or_empty (files stored)) file = Some hash)
        \<and> (\<forall>(file, hash)\<in>set (or_empty (media fresh)).
              map_of (or_empty (media stored)) file = Some hash \<and> hash \<noteq> [])"
  then have f: "changedEntries (or_empty (files fresh)) (or_empty (files stored)) = []"
    by (intro changedEntries_all_match) simp
  from h have m1: "changedEntries (or_empty (media fresh)) (or_empty (media stored)) = []"
    by (intro changedEntries_all_match) auto
  from h have m2: "newMedia (or_empty (media fresh)) (or_empty (media stored)) [] = []"
    by (intro newMedia_all_match) simp
  show "compareChecksums fresh (Some stored) =
          \<lparr> changed = False, reason = ''match'',
            details = \<lparr> details_files = [], details_media = [] \<rparr> \<rparr>"
    using h f m1 m2 by (simp add: compareChecksums_def Let_def)
qed

text \<open>
  The remote example holds \<open>old.json\<close> and \<open>removed.png\<close>, which the exported one lacks;
  every exported entry matches.
\<close>

theorem compareChecksums_one_directional_witness:
  "combined example_fresh \<noteq> combined example_stored
   \<and> ''old.json'' \<in> fst ` set (or_empty (files example_stored))
   \<and> ''removed.png'' \<in> fst ` set (or_empty (media example_stored))
   \<and> compareChecksums example_fresh (Some example_stored) =
        \<lparr> changed = False, reason = ''match'',
          details = \<lparr> details_files = [], details_media = [] \<rparr> \<rparr>"
proof -
  have c: "combined example_fresh \<noteq> combined example_stored"
    by (simp add: example_fresh_def example_stored_def)
  have f: "\<forall>(file, hash)\<in>set (or_empty (files example_fresh)).
             map_of (or_empty (files example_stored)) file = Some hash"
    by (simp add: example_fresh_def example_stored_def or_empty_def)
  have m: "\<forall>(file, hash)\<in>set (or_empty (media example_fresh)).
             map_of (or_empty (media example_stored)) file = Some hash \<and> hash \<noteq> []"
    by (simp add: example_fresh_def example_stored_def or_empty_def)
  have k: "''old.json'' \<in> fst ` set (or_empty (files example_stored))
         \<and> ''removed.png'' \<in> fst ` set (or_empty (media example_stored))"
    by (simp add: example_stored_def or_empty_def)
  from c f m k compareChecksums_one_directional[of example_fresh example_stored]
  show ?thesis by blast
qed

text \<open>
  Claim C8. The keys of an object are distinct. Then no name occurs twice in
  \<open>details.files\<close> or in \<open>details.media\<close>, and in the detailed comparison a media file
  that the exported checksums hold and the remote ones lack occurs in \<open>details.media\<close>
  exactly once, although both media loops detect it.
\<close>

theorem compareChecksums_no_duplicates:
  assumes "distinct (map fst (or_empty (files fresh)))"
    and "distinct (map fst (or_empty (media fresh)))"
  shows "distinct (details_files (details (compareChecksums fresh stored)))
       \<and> distinct (details_media (details (compareChecksums fresh stored)))
       \<and> (\<forall>remote name.
            stored = Some remote \<and> combined fresh \<noteq> combined remote
            \<and> name \<in> fst ` set (or_empty (media fresh))
            \<and> name \<notin> fst ` set (or_empty (media remote))
          \<longrightarrow> count_list (details_media (details (compareChecksums fresh stored))) name = 1)"
proof -
  have df: "distinct (details_files (details (compareChecksums fresh stored)))"
    using assms(1)
    by (auto simp: compareChecksums_def Let_def distinct_changedEntries split: option.splits)
  have dm: "distinct (details_media (details (compareChecksums fresh stored)))"
    using assms(2)
    by (auto simp: compareChecksums_def Let_def distinct_changedEntries distinct_newMedia
        split: option.splits)
  have once: "count_list (details_media (details (compareChecksums fresh stored))) name = 1"
    if h: "stored = Some remote" "combined fresh \<noteq> combined remote"
      "name \<in> fst ` set (or_empty (media fresh))" "name \<notin> fst ` set (or_empty (media remote))"
    for remote name
  proof -
    from h(3) obtain hash where "(name, hash) \<in> set (or_empty (media fresh))" by auto
    moreover have "js_get (or_empty (media remote)) name \<noteq> Str hash"
      using h(4) by (rule js_get_absent)
    ultimately have "name \<in> set (changedEntries (or_empty (media fresh)) (or_empty (media remote)))"
      by (force simp: changedEntries_filter)
    then have "name \<in> set (details_media (details (compareChecksums fresh stored)))"
      using h(1,2) newMedia_keeps[of "changedEntries (or_empty (media fresh)) (or_empty (media remote))"
          "or_empty (media fresh)" "or_empty (media remote)"]
      by (auto simp: compareChecksums_def Let_def)
    with dm show ?thesis by (rule count_list_distinct)
  qed
  show ?thesis using df dm once by blast
qed

theorem compareChecksums_no_duplicates_witness:
  "distinct (map fst (or_empty (files example_new_media)))
   \<and> distinct (map fst (or_empty (media example_new_media)))
   \<and> ''logo.png'' \<in> fst ` set (or_empty (media example_new_media))
   \<and> ''logo.png'' \<notin> fst ` set (or_empty (media example_stored))
   \<and> details_media (details (compareChecksums example_new_media (Some example_stored))) = [''logo.png'']
   \<and> count_list (details_media (details (compareChecksums example_new_media (Some example_stored))))
        ''logo.png'' = 1"
proof -
  have d1: "distinct (map fst (or_empty (files example_new_media)))"
    and d2: "distinct (map fst (or_empty (media example_new_media)))"
    by (simp_all add: example_new_media_def or_empty_def)
  have c: "combined example_new_media \<noteq> combined example_stored"
    by (simp add: example_new_media_def example_stored_def)
  have k1: "''logo.png'' \<in> fst ` set (or_empty (media example_new_media))"
    by (simp add: example_new_media_def or_empty_def)
  have k2: "''logo.png'' \<notin> fst ` set (or_empty (media example_stored))"
    by (simp add: example_stored_def or_empty_def)
  have v: "details_media (details (compareChecksums example_new_media (Some example_stored)))
             = [''logo.png'']"
    by (simp add: compare_eval example_new_media_def example_stored_def)
  from compareChecksums_no_duplicates[OF d1 d2, of "Some example_stored"] c k1 k2
  have "count_list (details_media (details (compareChecksums example_new_media (Some example_stored))))
          ''logo.png'' = 1"
    by blast
  with d1 d2 k1 k2 v show ?thesis by blast
qed

text \<open>
  Claim C10. In the detailed comparison an absent \<open>files\<close> or \<open>media\<close> object, on either
  side, gives the result that an empty object gives. The comparison has no failing
  branch: on every pair of checksums it returns a result.
\<close>

theorem compareChecksums_absent_is_empty:
  "compareChecksums (A\<lparr>media := None\<rparr>) (Some B) = compareChecksums (A\<lparr>media := Some []\<rparr>) (Some B)
   \<and> compareChecksums (A\<lparr>files := None\<rparr>) (Some B) = compareChecksums (A\<lparr>files := Some []\<rparr>) (Some B)
   \<and> compareChecksums A (Some (B\<lparr>media := None\<rparr>)) = compareChecksums A (Some (B\<lparr>media := Some []\<rparr>))
   \<and> compareChecksums A (Some (B\<lparr>files := None\<rparr>)) = compareChecksums A (Some (B\<lparr>files := Some []\<rparr>))"
  by (simp add: compareChecksums_def or_empty_def)

end
